theory Spec2Isabelle
  imports Main "HOL-Library.Word" "HOL-Library.Multiset"
begin

unbundle bit_operations_syntax

section \<open>Probe classifier (ping.go, parsePingOutputSuccess)\<close>

text \<open>
  Go strings are byte sequences; they are modelled as \<open>string\<close> (a list of 8-bit
  characters), a text outside ASCII by the bytes of its UTF-8 encoding.
\<close>

definition isUpper :: "char \<Rightarrow> bool" where
  "isUpper c = (65 \<le> (of_char c :: nat) \<and> (of_char c :: nat) \<le> 90)"

definition lowerChar :: "char \<Rightarrow> char" where
  "lowerChar c = (if isUpper c then char_of ((of_char c :: nat) + 32) else c)"

text \<open>
  \<open>strings.ToLower\<close> first scans the bytes of its argument. When all of them are below
  \<open>0x80\<close> (\<open>utf8.RuneSelf\<close>) it maps the letters A-Z to a-z and keeps every other
  byte. Otherwise it returns \<open>Map(unicode.ToLower, s)\<close>, which decodes the runes of \<open>s\<close>
  and maps each through the case tables of package \<open>unicode\<close>. Those tables are data of
  the Go library and are not reproduced here: \<open>MapUnicodeToLower\<close> is left unspecified,
  so that nothing is stated about the lower-casing of a text with a byte outside ASCII.
\<close>

definition isASCII :: "string \<Rightarrow> bool" where
  "isASCII s = list_all (\<lambda>c. (of_char c :: nat) < 128) s"

definition MapUnicodeToLower :: "string \<Rightarrow> string" where
  "MapUnicodeToLower = undefined"

definition ToLower :: "string \<Rightarrow> string" where
  "ToLower s = (if isASCII s then map lowerChar s else MapUnicodeToLower s)"

text \<open>\<open>strings.Contains(s, sub)\<close>: \<open>sub\<close> occurs in \<open>s\<close> as a contiguous run.\<close>

fun Contains :: "string \<Rightarrow> string \<Rightarrow> bool" where
  "Contains [] sub = (sub = [])"
| "Contains (c # cs) sub = (take (length sub) (c # cs) = sub \<or> Contains cs sub)"

text \<open>
  The three regular expressions of the classifier are sequences of the following atoms.
  \<open>WordB\<close> is \<open>\b\<close>, \<open>Lit\<close> a literal matched under the case folding of the \<open>(?i)\<close>
  flag, \<open>Plus\<close> and \<open>Star\<close> the greedy repetitions of a character class, and
  \<open>CapPlus\<close> a greedy \<open>+\<close> whose text is captured (the inner group, \<open>m[2]\<close>).
\<close>

datatype cls = Digit | Space

datatype atom = WordB | Lit string | Plus cls | Star cls | CapPlus cls

definition isDigit :: "char \<Rightarrow> bool" where
  "isDigit c = (48 \<le> (of_char c :: nat) \<and> (of_char c :: nat) \<le> 57)"

text \<open>\<open>\s\<close> of Go's regexp syntax: tab, newline, form feed, carriage return, space.\<close>

definition isSpace :: "char \<Rightarrow> bool" where
  "isSpace c = ((of_char c :: nat) \<in> {9, 10, 12, 13, 32})"

text \<open>Word characters of \<open>\b\<close>: ASCII letters, digits and the underscore.\<close>

definition isWordChar :: "char \<Rightarrow> bool" where
  "isWordChar c = (isDigit c \<or> isUpper c
     \<or> (97 \<le> (of_char c :: nat) \<and> (of_char c :: nat) \<le> 122) \<or> (of_char c :: nat) = 95)"

fun inCls :: "cls \<Rightarrow> char \<Rightarrow> bool" where
  "inCls Digit c = isDigit c"
| "inCls Space c = isSpace c"

definition isWordOpt :: "char option \<Rightarrow> bool" where
  "isWordOpt oc = (case oc of None \<Rightarrow> False | Some c \<Rightarrow> isWordChar c)"

definition headOpt :: "string \<Rightarrow> char option" where
  "headOpt s = (case s of [] \<Rightarrow> None | c # _ \<Rightarrow> Some c)"

text \<open>The character before the position reached after consuming \<open>k\<close> characters of \<open>s\<close>.\<close>

definition prevAfter :: "char option \<Rightarrow> string \<Rightarrow> nat \<Rightarrow> char option" where
  "prevAfter prev s k = (if k = 0 \<or> length s < k then prev else Some (s ! (k - 1)))"

fun firstSome :: "(nat \<Rightarrow> 'a option) \<Rightarrow> nat list \<Rightarrow> 'a option" where
  "firstSome f [] = None"
| "firstSome f (k # ks) = (case f k of Some r \<Rightarrow> Some r | None \<Rightarrow> firstSome f ks)"

text \<open>
  The repetition counts a greedy quantifier tries, longest first: from the length of the
  longest run of class characters down to the minimum \<open>lo\<close>.
\<close>

definition repCounts :: "cls \<Rightarrow> nat \<Rightarrow> string \<Rightarrow> nat list" where
  "repCounts c lo s = rev [lo ..< Suc (length (takeWhile (inCls c) s))]"

text \<open>
  One character of a literal under \<open>(?i)\<close>. Go's \<open>regexp\<close> matches the rune at the
  current position against the orbit of the character under simple case folding: both
  cases of an ASCII letter, for \<open>k\<close> also the Kelvin sign U+212A (UTF-8 bytes
  \<open>E2 84 AA\<close>), for \<open>s\<close> also the long s U+017F (bytes \<open>C5 BF\<close>); a character that is
  not a letter matches itself only. \<open>foldWidth\<close> gives the number of bytes of the matched
  rune, \<open>litWidth\<close> the number of bytes matched by a whole literal.
\<close>

definition foldWidth :: "char \<Rightarrow> string \<Rightarrow> nat option" where
  "foldWidth c s =
     (if s \<noteq> [] \<and> lowerChar (hd s) = lowerChar c then Some 1
      else if lowerChar c = CHR ''k'' \<and> take 3 s = [CHR 0xE2, CHR 0x84, CHR 0xAA] then Some 3
      else if lowerChar c = CHR ''s'' \<and> take 2 s = [CHR 0xC5, CHR 0xBF] then Some 2
      else None)"

fun litWidth :: "string \<Rightarrow> string \<Rightarrow> nat option" where
  "litWidth [] s = Some 0"
| "litWidth (c # l) s =
     (case foldWidth c s of
        None \<Rightarrow> None
      | Some k \<Rightarrow> (case litWidth l (drop k s) of None \<Rightarrow> None | Some n \<Rightarrow> Some (k + n)))"

text \<open>
  A backtracking match of the atom sequence at the current position: \<open>prev\<close> is the
  character before the position, \<open>s\<close> the rest of the text, \<open>cap\<close> the captured text so
  far. The result is the capture when the whole sequence matches. Trying the longest
  repetition first and the leftmost position first is the leftmost-first rule of Go's
  \<open>regexp\<close> package. The classes \<open>\d\<close>, \<open>\s\<close> and the word characters of \<open>\b\<close> are
  ASCII classes in Go, and every byte below \<open>0x80\<close> is a rune of its own, so that matching
  byte by byte agrees with Go's matching rune by rune.
\<close>

fun matchHere :: "atom list \<Rightarrow> char option \<Rightarrow> string \<Rightarrow> string \<Rightarrow> string option" where
  "matchHere [] prev s cap = Some cap"
| "matchHere (WordB # as) prev s cap =
     (if isWordOpt prev \<noteq> isWordOpt (headOpt s) then matchHere as prev s cap else None)"
| "matchHere (Lit l # as) prev s cap =
     (case litWidth l s of
        Some k \<Rightarrow> matchHere as (prevAfter prev s k) (drop k s) cap
      | None \<Rightarrow> None)"
| "matchHere (Plus c # as) prev s cap =
     firstSome (\<lambda>k. matchHere as (prevAfter prev s k) (drop k s) cap) (repCounts c 1 s)"
| "matchHere (Star c # as) prev s cap =
     firstSome (\<lambda>k. matchHere as (prevAfter prev s k) (drop k s) cap) (repCounts c 0 s)"
| "matchHere (CapPlus c # as) prev s cap =
     firstSome (\<lambda>k. matchHere as (prevAfter prev s k) (drop k s) (take k s)) (repCounts c 1 s)"

fun findFrom :: "atom list \<Rightarrow> char option \<Rightarrow> string \<Rightarrow> string option" where
  "findFrom as prev [] = matchHere as prev [] []"
| "findFrom as prev (c # cs) =
     (case matchHere as prev (c # cs) [] of
        Some cap \<Rightarrow> Some cap
      | None \<Rightarrow> findFrom as (Some c) cs)"

text \<open>
  \<open>re.FindStringSubmatch(s)\<close>, reduced to what the classifier reads of it: \<open>None\<close> when
  there is no match (the Go result is nil, of length 0), otherwise the text of the inner
  group \<open>m[2]\<close> of the leftmost match (the Go result then has length 3).
\<close>

definition FindStringSubmatch :: "atom list \<Rightarrow> string \<Rightarrow> string option" where
  "FindStringSubmatch re s = findFrom re None s"

text \<open>\<^verbatim>\<open>(?i)(\b(\d+)\s+received\b)\<close>\<close>

definition reReceived :: "atom list" where
  "reReceived = [WordB, CapPlus Digit, Plus Space, Lit ''received'', WordB]"

text \<open>\<^verbatim>\<open>(?i)(\b(\d+)\s+packets\s+received\b)\<close>\<close>

definition rePacketsReceived :: "atom list" where
  "rePacketsReceived =
     [WordB, CapPlus Digit, Plus Space, Lit ''packets'', Plus Space, Lit ''received'', WordB]"

text \<open>\<^verbatim>\<open>(?i)(\b(\d+)%\s*packet\s*loss\b)\<close>\<close>

definition reLoss :: "atom list" where
  "reLoss =
     [WordB, CapPlus Digit, Lit ''%'', Star Space, Lit ''packet'', Star Space, Lit ''loss'', WordB]"

text \<open>
  The generic reply indicators. The last two are the UTF-8 bytes of the two Chinese
  markers of the source (``received'' and ``from'').
\<close>

definition indicators :: "string list" where
  "indicators =
     [''bytes from'', ''ttl='', ''time='',
      [CHR 0xE5, CHR 0xB7, CHR 0xB2, CHR 0xE6, CHR 0x8E, CHR 0xA5, CHR 0xE6, CHR 0x94, CHR 0xB6],
      [CHR 0xE6, CHR 0x9D, CHR 0xA5, CHR 0xE8, CHR 0x87, CHR 0xAA]]"

definition parsePingOutputSuccess :: "string \<Rightarrow> bool" where
  "parsePingOutputSuccess output =
     (let low = ToLower output in
      if (case FindStringSubmatch reReceived low of
            Some m2 \<Rightarrow> m2 \<noteq> ''0'' | None \<Rightarrow> False) then True
      else if (case FindStringSubmatch rePacketsReceived low of
            Some m2 \<Rightarrow> m2 \<noteq> ''0'' | None \<Rightarrow> False) then True
      else if (case FindStringSubmatch reLoss low of
            Some m2 \<Rightarrow> m2 = ''0'' | None \<Rightarrow> False) then True
      else if list_ex (\<lambda>s. Contains low s) indicators then True
      else False)"

section \<open>Decision state machine (ping.go, evaluatePingSequence and pingWithRetry)\<close>

record PingConfig =
  MaxAttempts :: int
  SuccessNeed :: int
  ConsecutiveFailStop :: int
  Timeout :: int
  AttemptInterval :: int

text \<open>Durations are nanoseconds, as \<open>time.Duration\<close> is.\<close>

definition defaultPingConfig :: PingConfig where
  "defaultPingConfig =
     \<lparr>MaxAttempts = 5, SuccessNeed = 2, ConsecutiveFailStop = 3,
      Timeout = 2000000000, AttemptInterval = 1000000000\<rparr>"

text \<open>
  The Go functions return the verdict only. The model returns with it the number of
  attempts taken and the \<open>return\<close> statement that ended the campaign, so that claims
  about when and why a campaign stops can be stated.
\<close>

datatype exit = ExitNoAttempts | ExitSuccessNeed | ExitConsecFail | ExitLastAttempt | ExitLoopEnd

record campaign =
  verdict :: bool
  attempts :: int
  exit :: exit

text \<open>
  The loop of \<open>evaluatePingSequence\<close> over the rest of \<open>results\<close>. The counters are Go
  \<open>int\<close>s; each is bounded by the number of elements read, so none can overflow and
  they are modelled as \<open>int\<close>.
\<close>

fun evalLoop :: "bool list \<Rightarrow> int \<Rightarrow> int \<Rightarrow> int \<Rightarrow> int \<Rightarrow> int \<Rightarrow> int \<Rightarrow> campaign" where
  "evalLoop [] maxAttempts successNeed consecutiveFailStop successes consecFails att =
     \<lparr>verdict = (successes \<ge> successNeed), attempts = att, exit = ExitLoopEnd\<rparr>"
| "evalLoop (r # rs) maxAttempts successNeed consecutiveFailStop successes consecFails att =
     (if att \<ge> maxAttempts then
        \<lparr>verdict = (successes \<ge> successNeed), attempts = att, exit = ExitLoopEnd\<rparr>
      else if r then
        (if successes + 1 \<ge> successNeed then
           \<lparr>verdict = True, attempts = att + 1, exit = ExitSuccessNeed\<rparr>
         else evalLoop rs maxAttempts successNeed consecutiveFailStop (successes + 1) 0 (att + 1))
      else
        (if consecFails + 1 \<ge> consecutiveFailStop then
           \<lparr>verdict = False, attempts = att + 1, exit = ExitConsecFail\<rparr>
         else evalLoop rs maxAttempts successNeed consecutiveFailStop successes (consecFails + 1)
                (att + 1)))"

definition evaluatePingSequenceRun :: "bool list \<Rightarrow> int \<Rightarrow> int \<Rightarrow> int \<Rightarrow> campaign" where
  "evaluatePingSequenceRun results maxAttempts successNeed consecutiveFailStop =
     evalLoop results maxAttempts successNeed consecutiveFailStop 0 0 0"

definition evaluatePingSequence :: "bool list \<Rightarrow> int \<Rightarrow> int \<Rightarrow> int \<Rightarrow> bool" where
  "evaluatePingSequence results maxAttempts successNeed consecutiveFailStop =
     verdict (evaluatePingSequenceRun results maxAttempts successNeed consecutiveFailStop)"

text \<open>
  One attempt of \<open>pingWithRetry\<close> runs the platform's ping command. The command is
  outside the program, so the model takes its results as a parameter: \<open>exec i\<close> is what
  \<open>cmd.CombinedOutput()\<close> returns in iteration \<open>i\<close>, the output and whether \<open>err == nil\<close>.
\<close>

definition attemptOk :: "string \<times> bool \<Rightarrow> bool" where
  "attemptOk r = (case r of (out, errNil) \<Rightarrow>
     (if errNil then True else if parsePingOutputSuccess out then True else False))"

definition MaxInt32 :: int where
  "MaxInt32 = 2147483647"

function pingLoop ::
  "(int \<Rightarrow> string \<times> bool) \<Rightarrow> int \<Rightarrow> int \<Rightarrow> int \<Rightarrow> int \<Rightarrow> int \<Rightarrow> int \<Rightarrow> campaign" where
  "pingLoop exec maxRetries successNeed consecFailStop i successes consecFails =
     (if i < maxRetries then
        (if attemptOk (exec i) then
           (if successes + 1 \<ge> successNeed then
              \<lparr>verdict = True, attempts = i + 1, exit = ExitSuccessNeed\<rparr>
            else if i = maxRetries - 1 then
              \<lparr>verdict = (successes + 1 \<ge> successNeed), attempts = i + 1, exit = ExitLastAttempt\<rparr>
            else pingLoop exec maxRetries successNeed consecFailStop (i + 1) (successes + 1) 0)
         else
           (if consecFails + 1 \<ge> consecFailStop then
              \<lparr>verdict = False, attempts = i + 1, exit = ExitConsecFail\<rparr>
            else if i = maxRetries - 1 then
              \<lparr>verdict = (successes \<ge> successNeed), attempts = i + 1, exit = ExitLastAttempt\<rparr>
            else pingLoop exec maxRetries successNeed consecFailStop (i + 1) successes
                   (consecFails + 1)))
      else \<lparr>verdict = (successes \<ge> successNeed), attempts = i, exit = ExitLoopEnd\<rparr>)"
  by pat_completeness auto
termination
  by (relation "measure (\<lambda>(exec, maxRetries, successNeed, consecFailStop, i, successes, consecFails).
        nat (maxRetries - i))") auto

declare pingLoop.simps [simp del]

definition pingWithRetryRun :: "(int \<Rightarrow> string \<times> bool) \<Rightarrow> PingConfig \<Rightarrow> campaign" where
  "pingWithRetryRun exec cfg =
     (let maxRetries = MaxAttempts cfg;
          successNeed = SuccessNeed cfg;
          consecFailStop = ConsecutiveFailStop cfg
      in if maxRetries \<le> 0 then \<lparr>verdict = False, attempts = 0, exit = ExitNoAttempts\<rparr>
         else
           (let successNeed = (if successNeed \<le> 0 then 1 else successNeed);
                consecFailStop = (if consecFailStop \<le> 0 then MaxInt32 else consecFailStop)
            in pingLoop exec maxRetries successNeed consecFailStop 0 0 0))"

definition pingWithRetry :: "(int \<Rightarrow> string \<times> bool) \<Rightarrow> PingConfig \<Rightarrow> bool" where
  "pingWithRetry exec cfg = verdict (pingWithRetryRun exec cfg)"

section \<open>Address expander (main.go, parseCIDR, incIP, parseIPRange, compareIP)\<close>

type_synonym byte = "8 word"

text \<open>
  The errors of the expander, one constructor for each \<open>errors.New\<close> or \<open>fmt.Errorf\<close>
  of \<open>parseCIDR\<close> and \<open>parseIPRange\<close>, in the order of the source. \<open>ErrStartAfterEnd\<close> is
  the specification's \<open>InconsistentRange\<close>; \<open>ErrCIDRTooLarge\<close> and \<open>ErrRangeTooLarge\<close> are
  its \<open>RangeTooLarge\<close>.
\<close>

datatype expandError =
    ErrCIDRFormat
  | ErrIPv4Only
  | ErrCIDRTooLarge
  | ErrRangeFormat
  | ErrEndpointInvalid
  | ErrRangeIPv4Only
  | ErrStartAfterEnd
  | ErrRangeTooLarge

subsection \<open>What the expander uses of Go's standard library\<close>

text \<open>
  A \<open>net.IP\<close> and a \<open>net.IPMask\<close> are byte slices, modelled as byte lists; a nil slice
  returned for failure is \<open>None\<close>.
\<close>

record IPNet =
  IP :: "byte list"
  Mask :: "byte list"

text \<open>\<open>ip.To4()\<close>: a 4-byte address as it is, a 16-byte IPv4-mapped address cut to its last
  4 bytes, anything else nil.\<close>

definition To4 :: "byte list \<Rightarrow> byte list option" where
  "To4 ip =
     (if length ip = 4 then Some ip
      else if length ip = 16 \<and> take 10 ip = replicate 10 0 \<and> ip ! 10 = 0xff \<and> ip ! 11 = 0xff
      then Some (drop 12 ip)
      else None)"

definition To4Opt :: "byte list option \<Rightarrow> byte list option" where
  "To4Opt oip = (case oip of None \<Rightarrow> None | Some ip \<Rightarrow> To4 ip)"

definition v4InV6Prefix :: "byte list" where
  "v4InV6Prefix = replicate 10 0 @ [0xff, 0xff]"

text \<open>\<open>ip.Mask(mask)\<close>: the bytewise conjunction, after bringing a 16-byte mask or address
  to 4 bytes where the other operand has 4; nil when the lengths still differ.\<close>

definition MaskIP :: "byte list \<Rightarrow> byte list \<Rightarrow> byte list option" where
  "MaskIP ip msk =
     (let msk1 = (if length msk = 16 \<and> length ip = 4 \<and> list_all (\<lambda>b. b = 0xff) (take 12 msk)
                  then drop 12 msk else msk);
          ip1 = (if length msk1 = 4 \<and> length ip = 16 \<and> take 12 ip = v4InV6Prefix
                 then drop 12 ip else ip)
      in if length ip1 \<noteq> length msk1 then None
         else Some (map (\<lambda>(a, m). a AND m) (zip ip1 msk1)))"

text \<open>The inner loop of \<open>simpleMaskLength\<close>: count and shift out the leading one bits of a
  byte. A byte has 8 bits, so 8 rounds are enough.\<close>

fun countOnes :: "nat \<Rightarrow> byte \<Rightarrow> nat \<times> byte" where
  "countOnes 0 v = (0, v)"
| "countOnes (Suc k) v =
     (if v AND 0x80 \<noteq> 0
      then (case countOnes k (push_bit 1 v) of (n, v') \<Rightarrow> (Suc n, v'))
      else (0, v))"

fun simpleMaskLength :: "byte list \<Rightarrow> int" where
  "simpleMaskLength [] = 0"
| "simpleMaskLength (v # rest) =
     (if v = 0xff then
        (let n = simpleMaskLength rest in if n = -1 then -1 else n + 8)
      else
        (case countOnes 8 v of (n, v') \<Rightarrow>
           if v' \<noteq> 0 then -1
           else if list_ex (\<lambda>b. b \<noteq> 0) rest then -1
           else int n))"

text \<open>\<open>mask.Size()\<close>: the number of leading ones and the number of bits, or 0 and 0 when
  the mask is not ones followed by zeros.\<close>

definition Size :: "byte list \<Rightarrow> int \<times> int" where
  "Size m = (let ones = simpleMaskLength m in
             if ones = -1 then (0, 0) else (ones, int (length m) * 8))"

definition networkNumberAndMask :: "IPNet \<Rightarrow> (byte list \<times> byte list) option" where
  "networkNumberAndMask n =
     (case (case To4 (IP n) of Some ip4 \<Rightarrow> Some ip4
            | None \<Rightarrow> if length (IP n) \<noteq> 16 then None else Some (IP n)) of
        None \<Rightarrow> None
      | Some ip \<Rightarrow>
          (if length (Mask n) = 4 then (if length ip \<noteq> 4 then None else Some (ip, Mask n))
           else if length (Mask n) = 16
             then Some (ip, if length ip = 4 then drop 12 (Mask n) else Mask n)
           else None))"

text \<open>\<open>ipNet.Contains(ip)\<close>\<close>

definition ContainsIP :: "IPNet \<Rightarrow> byte list \<Rightarrow> bool" where
  "ContainsIP n ip =
     (case networkNumberAndMask n of
        None \<Rightarrow> (case To4 ip of Some x \<Rightarrow> length x = 0 | None \<Rightarrow> length ip = 0)
      | Some (nn, m) \<Rightarrow>
          (let ip1 = (case To4 ip of Some x \<Rightarrow> x | None \<Rightarrow> ip)
           in if length ip1 \<noteq> length nn then False
              else list_all (\<lambda>(a, b, c). a AND c = b AND c) (zip nn (zip ip1 m))))"

text \<open>\<open>net.CIDRMask(ones, bits)\<close> for a mask of \<open>l\<close> bytes.\<close>

fun CIDRMask :: "nat \<Rightarrow> nat \<Rightarrow> byte list" where
  "CIDRMask 0 n = []"
| "CIDRMask (Suc l) n =
     (if n \<ge> 8 then 0xff # CIDRMask l (n - 8) else (NOT (drop_bit n 0xff)) # CIDRMask l 0)"

text \<open>Decimal text of a number, without leading zeros.\<close>

fun decimal :: "nat \<Rightarrow> string" where
  "decimal n = (if n < 10 then [char_of (48 + n)]
                else decimal (n div 10) @ [char_of (48 + n mod 10)])"

declare decimal.simps [simp del]

text \<open>\<open>net.IPv4(a, b, c, d).String()\<close>: the dotted-decimal text.\<close>

definition IPv4String :: "byte \<Rightarrow> byte \<Rightarrow> byte \<Rightarrow> byte \<Rightarrow> string" where
  "IPv4String a b c d =
     decimal (unat a) @ ''.'' @ decimal (unat b) @ ''.'' @ decimal (unat c) @ ''.'' @ decimal (unat d)"

text \<open>\<open>strings.Split(s, sep)\<close> for a separator of one character.\<close>

fun Split :: "string \<Rightarrow> char \<Rightarrow> string list" where
  "Split [] sep = [[]]"
| "Split (c # cs) sep =
     (if c = sep then [] # Split cs sep
      else (case Split cs sep of p # ps \<Rightarrow> (c # p) # ps | [] \<Rightarrow> [[c]]))"

text \<open>
  \<open>strings.TrimSpace\<close> removes the leading and the trailing runes of \<open>unicode.IsSpace\<close>.
  In ASCII these are tab, newline, vertical tab, form feed, carriage return and space
  (\<open>isWhite\<close>). The others are U+0085, U+00A0, U+1680, U+2000 to U+200A, U+2028, U+2029,
  U+202F, U+205F and U+3000; \<open>spaceRunes\<close> lists their UTF-8 encodings. Bytes that are not
  one of these encodings decode to another rune or to a decoding error, which is not
  white space and ends the trimming.
\<close>

definition isWhite :: "char \<Rightarrow> bool" where
  "isWhite c = ((of_char c :: nat) \<in> {9, 10, 11, 12, 13, 32})"

definition spaceRunes :: "string list" where
  "spaceRunes =
     [[CHR 0xC2, CHR 0x85], [CHR 0xC2, CHR 0xA0], [CHR 0xE1, CHR 0x9A, CHR 0x80],
      [CHR 0xE2, CHR 0x80, CHR 0x80], [CHR 0xE2, CHR 0x80, CHR 0x81],
      [CHR 0xE2, CHR 0x80, CHR 0x82], [CHR 0xE2, CHR 0x80, CHR 0x83],
      [CHR 0xE2, CHR 0x80, CHR 0x84], [CHR 0xE2, CHR 0x80, CHR 0x85],
      [CHR 0xE2, CHR 0x80, CHR 0x86], [CHR 0xE2, CHR 0x80, CHR 0x87],
      [CHR 0xE2, CHR 0x80, CHR 0x88], [CHR 0xE2, CHR 0x80, CHR 0x89],
      [CHR 0xE2, CHR 0x80, CHR 0x8A], [CHR 0xE2, CHR 0x80, CHR 0xA8],
      [CHR 0xE2, CHR 0x80, CHR 0xA9], [CHR 0xE2, CHR 0x80, CHR 0xAF],
      [CHR 0xE2, CHR 0x81, CHR 0x9F], [CHR 0xE3, CHR 0x80, CHR 0x80]]"

text \<open>The number of bytes of the white-space rune at the start of \<open>s\<close>, and of the one at
  its end; 0 when there is none.\<close>

definition spaceWidth :: "string \<Rightarrow> nat" where
  "spaceWidth s =
     (if s = [] then 0
      else if isWhite (hd s) then 1
      else (case find (\<lambda>p. take (length p) s = p) spaceRunes of
              Some p \<Rightarrow> length p
            | None \<Rightarrow> 0))"

definition spaceWidthLast :: "string \<Rightarrow> nat" where
  "spaceWidthLast s =
     (if s = [] then 0
      else if isWhite (last s) then 1
      else (case find (\<lambda>p. length p \<le> length s \<and> drop (length s - length p) s = p) spaceRunes of
              Some p \<Rightarrow> length p
            | None \<Rightarrow> 0))"

text \<open>\<open>strings.TrimLeftFunc\<close> and \<open>strings.TrimRightFunc\<close> at \<open>unicode.IsSpace\<close>.\<close>

function TrimLeftFunc :: "string \<Rightarrow> string" where
  "TrimLeftFunc s = (if spaceWidth s = 0 then s else TrimLeftFunc (drop (spaceWidth s) s))"
  by pat_completeness auto
termination
  by (relation "measure length") (auto simp add: spaceWidth_def split: if_splits)

declare TrimLeftFunc.simps [simp del]

function TrimRightFunc :: "string \<Rightarrow> string" where
  "TrimRightFunc s =
     (if spaceWidthLast s = 0 then s else TrimRightFunc (take (length s - spaceWidthLast s) s))"
  by pat_completeness auto
termination
  by (relation "measure length") (auto simp add: spaceWidthLast_def split: if_splits)

declare TrimRightFunc.simps [simp del]

definition TrimSpace :: "string \<Rightarrow> string" where
  "TrimSpace s = TrimRightFunc (TrimLeftFunc s)"

subsection \<open>The functions of main.go\<close>

text \<open>
  \<open>incIP\<close>: from the last byte down, add one (a byte wraps from 255 to 0) and stop at the
  first byte that did not wrap. \<open>incIPLoop n\<close> is the loop at index \<open>i = n - 1\<close>.
\<close>

fun incIPLoop :: "nat \<Rightarrow> byte list \<Rightarrow> byte list" where
  "incIPLoop 0 ip = ip"
| "incIPLoop (Suc i) ip =
     (let ip' = ip[i := ip ! i + 1] in if ip' ! i \<noteq> 0 then ip' else incIPLoop i ip')"

definition incIP :: "byte list \<Rightarrow> byte list" where
  "incIP ip = incIPLoop (length ip) ip"

text \<open>
  \<open>compareIP\<close>: the loop over the indices 0 to 3, unrolled. Both callers pass slices of 4
  bytes (results of \<open>To4\<close>, and \<open>current\<close>), so no index is out of range.
\<close>

definition compareIP :: "byte list \<Rightarrow> byte list \<Rightarrow> int" where
  "compareIP a b =
     (if a ! 0 > b ! 0 then 1 else if a ! 0 < b ! 0 then -1
      else if a ! 1 > b ! 1 then 1 else if a ! 1 < b ! 1 then -1
      else if a ! 2 > b ! 2 then 1 else if a ! 2 < b ! 2 then -1
      else if a ! 3 > b ! 3 then 1 else if a ! 3 < b ! 3 then -1
      else 0)"

text \<open>\<open>current := make([]byte, 4); copy(current, src)\<close>\<close>

definition copy4 :: "byte list \<Rightarrow> byte list" where
  "copy4 src = take 4 src @ replicate (4 - length src) 0"

definition currentString :: "byte list \<Rightarrow> string" where
  "currentString current = IPv4String (current ! 0) (current ! 1) (current ! 2) (current ! 3)"

text \<open>
  The enumeration loops. Nothing in the loops bounds the number of rounds, so they are
  partial functions: \<open>None\<close> is a loop that never returns.
\<close>

partial_function (option) rangeLoop :: "byte list \<Rightarrow> byte list \<Rightarrow> string list \<Rightarrow> string list option"
where
  "rangeLoop current endBytes ips =
     (if compareIP current endBytes \<le> 0
      then rangeLoop (incIP current) endBytes (ips @ [currentString current])
      else Some ips)"

partial_function (option) cidrLoop :: "IPNet \<Rightarrow> byte list \<Rightarrow> string list \<Rightarrow> string list option"
where
  "cidrLoop ipNet current ips =
     (if ContainsIP ipNet current
      then cidrLoop ipNet (incIP current) (ips @ [currentString current])
      else Some ips)"

declare rangeLoop.simps [code]
declare cidrLoop.simps [code]

text \<open>The 32-bit value of a 4-byte address, as \<open>parseIPRange\<close> computes it.\<close>

definition ipVal :: "byte list \<Rightarrow> 32 word" where
  "ipVal bs = push_bit 24 (ucast (bs ! 0)) OR push_bit 16 (ucast (bs ! 1))
              OR push_bit 8 (ucast (bs ! 2)) OR ucast (bs ! 3)"

text \<open>\<open>count := uint64(endVal - startVal + 1)\<close>: the arithmetic is 32-bit, then widened.\<close>

definition rangeCount :: "byte list \<Rightarrow> byte list \<Rightarrow> 64 word" where
  "rangeCount startBytes endBytes = ucast (ipVal endBytes - ipVal startBytes + 1)"

text \<open>
  \<open>parseIPRange\<close>. \<open>net.ParseIP\<close> is a parameter: \<open>ParseIP s\<close> is the address it returns
  for the text \<open>s\<close>, \<open>None\<close> for nil. The result is \<open>None\<close> when the function never
  returns, otherwise the error or the list.
\<close>

definition parseIPRange ::
  "(string \<Rightarrow> byte list option) \<Rightarrow> string \<Rightarrow> (expandError + string list) option" where
  "parseIPRange ParseIP rangeStr =
     (let parts = Split rangeStr CHR ''-'' in
      if length parts \<noteq> 2 then Some (Inl ErrRangeFormat)
      else
        (let startIP = ParseIP (TrimSpace (parts ! 0));
             endIP = ParseIP (TrimSpace (parts ! 1))
         in if startIP = None \<or> endIP = None then Some (Inl ErrEndpointInvalid)
            else
              (case (To4Opt startIP, To4Opt endIP) of
                 (Some startBytes, Some endBytes) \<Rightarrow>
                   (if compareIP startBytes endBytes > 0 then Some (Inl ErrStartAfterEnd)
                    else if rangeCount startBytes endBytes > 1000000
                      then Some (Inl ErrRangeTooLarge)
                    else map_option Inr (rangeLoop (copy4 startBytes) endBytes []))
               | _ \<Rightarrow> Some (Inl ErrRangeIPv4Only))))"

text \<open>
  \<open>parseCIDR\<close>. \<open>net.ParseCIDR\<close> is a parameter: \<open>ParseCIDR s\<close> is the address and the
  network it returns, \<open>None\<close> when it returns an error.
\<close>

definition cidrTotal :: "int \<Rightarrow> 64 word" where
  "cidrTotal ones = push_bit (unat (word_of_int (32 - ones) :: 64 word)) (1 :: 64 word)"

definition parseCIDR ::
  "(string \<Rightarrow> (byte list \<times> IPNet) option) \<Rightarrow> string \<Rightarrow> (expandError + string list) option" where
  "parseCIDR ParseCIDR cidr =
     (case ParseCIDR cidr of
        None \<Rightarrow> Some (Inl ErrCIDRFormat)
      | Some (ip, ipNet) \<Rightarrow>
          (if To4 ip = None then Some (Inl ErrIPv4Only)
           else
             (case Size (Mask ipNet) of (ones, bits) \<Rightarrow>
                if bits \<noteq> 32 then Some (Inl ErrIPv4Only)
                else if cidrTotal ones > 1000000 then Some (Inl ErrCIDRTooLarge)
                else
                  (let start = To4Opt (MaskIP ip (Mask ipNet));
                       current = copy4 (case start of None \<Rightarrow> [] | Some bs \<Rightarrow> bs)
                   in map_option Inr (cidrLoop ipNet current [])))))"

subsection \<open>Addresses as 32-bit values\<close>

text \<open>
  The results of the expander are stated over the 32-bit value of an address:
  \<open>addrBytes\<close> gives the four bytes of a value (the inverse of \<open>ipVal\<close>), \<open>addrString\<close>
  its dotted-decimal text as the expander prints it, \<open>addressesFrom w cnt\<close> the \<open>cnt\<close>
  consecutive values from \<open>w\<close>, and \<open>networkAddress bs n\<close> the address \<open>bs\<close> with all
  but its first \<open>n\<close> bits cleared.
\<close>

definition addrBytes :: "32 word \<Rightarrow> byte list" where
  "addrBytes w = [ucast (drop_bit 24 w), ucast (drop_bit 16 w), ucast (drop_bit 8 w), ucast w]"

definition addrString :: "32 word \<Rightarrow> string" where
  "addrString w = currentString (addrBytes w)"

definition addressesFrom :: "32 word \<Rightarrow> nat \<Rightarrow> 32 word list" where
  "addressesFrom w cnt = map (\<lambda>k. w + of_nat k) [0 ..< cnt]"

definition networkAddress :: "byte list \<Rightarrow> nat \<Rightarrow> 32 word" where
  "networkAddress bs n = ipVal bs AND NOT (mask (32 - n))"

subsection \<open>The library parsers on dotted-decimal text\<close>

text \<open>
  For concrete lines the two parsers of the library are modelled on the texts used here:
  \<open>net.ParseIP\<close> on dotted-decimal IPv4 text (four decimal fields from 0 to 255 without
  leading zeros; the result is the 16-byte IPv4-mapped form), and \<open>net.ParseCIDR\<close> on
  such an address followed by \<open>/\<close> and a decimal prefix length from 0 to 32. Every other
  text is rejected by these two definitions.
\<close>

fun digitsVal :: "string \<Rightarrow> nat \<Rightarrow> nat" where
  "digitsVal [] acc = acc"
| "digitsVal (c # cs) acc = digitsVal cs (acc * 10 + ((of_char c :: nat) - 48))"

definition decimalField :: "string \<Rightarrow> nat option" where
  "decimalField s =
     (if s = [] \<or> length s > 3 \<or> \<not> list_all isDigit s then None
      else if length s > 1 \<and> hd s = CHR ''0'' then None
      else if digitsVal s 0 > 255 then None
      else Some (digitsVal s 0))"

definition dottedParseIP :: "string \<Rightarrow> byte list option" where
  "dottedParseIP s =
     (case map decimalField (Split s CHR ''.'') of
        [Some a, Some b, Some c, Some d] \<Rightarrow>
          Some (v4InV6Prefix @ [of_nat a, of_nat b, of_nat c, of_nat d])
      | _ \<Rightarrow> None)"

definition prefixLength :: "string \<Rightarrow> nat option" where
  "prefixLength s =
     (if s = [] \<or> length s > 3 \<or> \<not> list_all isDigit s then None
      else if digitsVal s 0 > 32 then None
      else Some (digitsVal s 0))"

definition dottedParseCIDR :: "string \<Rightarrow> (byte list \<times> IPNet) option" where
  "dottedParseCIDR s =
     (let addr = takeWhile (\<lambda>c. c \<noteq> CHR ''/'') s;
          rest = dropWhile (\<lambda>c. c \<noteq> CHR ''/'') s
      in if rest = [] then None
         else
           (case (dottedParseIP addr, prefixLength (tl rest)) of
              (Some ip, Some n) \<Rightarrow>
                (case MaskIP ip (CIDRMask 4 n) of
                   Some net \<Rightarrow> Some (ip, \<lparr>IP = net, Mask = CIDRMask 4 n\<rparr>)
                 | None \<Rightarrow> None)
            | _ \<Rightarrow> None))"

text \<open>Scripted results of the ping command, for concrete runs: the same result at every attempt.\<close>

definition constExec :: "string \<times> bool \<Rightarrow> int \<Rightarrow> string \<times> bool" where
  "constExec r i = r"



section \<open>Probe orchestrator (ping.go, PingIPsWithConfig)\<close>

text \<open>
  \<open>PingIPsWithConfig\<close> runs goroutines, so it is modelled as a transition system over the
  state of one call: the program counters of the main goroutine, of the worker
  goroutines and of the goroutine that closes the result channel, and the contents of
  the two channels and of the wait group. One step is one statement of one goroutine,
  chosen by the scheduler; a step that would block (a send to a full channel, a receive
  from an empty one, \<open>wg.Wait()\<close> with a positive counter) is not enabled.
\<close>

datatype sessError = InvalidConcurrency

text \<open>
  Where a worker goroutine stands: in \<open>pingRunner\<close> (\<open>WRun\<close>), holding its result before
  the send to \<open>resultChan\<close> (\<open>WSend\<close>), before the deferred receive from \<open>semaphore\<close>
  (\<open>WRelease\<close>), before the deferred \<open>wg.Done()\<close> (\<open>WDone\<close>), or finished (\<open>WExit\<close>).
\<close>

datatype wpc = WRun | WSend bool | WRelease | WDone | WExit

text \<open>
  The main goroutine: the three statements of the launch loop for the address at
  index \<open>idx\<close> (\<open>wg.Add(1)\<close>, the send to \<open>semaphore\<close>, the \<open>go\<close> statement), the \<open>go\<close>
  statement of the closing goroutine, the collecting loop over \<open>resultChan\<close>, and the
  return.
\<close>

datatype mpc = MAdd | MAcquire | MSpawn | MStartCloser | MCollect | MReturned

text \<open>The closing goroutine: not started, in \<open>wg.Wait()\<close>, before \<open>close(resultChan)\<close>,
  finished.\<close>

datatype cpc = CNotStarted | CWait | CClose | CExit

text \<open>A worker goroutine: the number of its launch (the index of its address), the
  address it captured, and where it stands.\<close>

record worker =
  wid :: nat
  wip :: string
  wpc :: wpc

record sess =
  inputIPs :: "string list"
  slots :: nat
  mainPc :: mpc
  idx :: nat
  semaphore :: nat
  semaphoreClosed :: bool
  wg :: int
  workers :: "worker list"
  resultChan :: "(string \<times> bool) list"
  resultChanClosed :: bool
  closer :: cpc
  successIPs :: "string list"
  failedIPs :: "string list"
  panicked :: bool

text \<open>
  The sequential beginning of \<open>PingIPsWithConfig\<close>: the error for a concurrency that is
  not positive, the immediate return for an empty list, otherwise the state before the
  launch loop, with an empty semaphore of \<open>concurrency\<close> slots.
\<close>

definition PingIPsWithConfig_start :: "string list \<Rightarrow> int \<Rightarrow> sessError + sess" where
  "PingIPsWithConfig_start addrs concurrency =
     (if concurrency \<le> 0 then Inl InvalidConcurrency
      else Inr \<lparr>inputIPs = addrs, slots = nat concurrency,
                mainPc = (if length addrs = 0 then MReturned else MAdd),
                idx = 0, semaphore = 0, semaphoreClosed = False, wg = 0, workers = [], resultChan = [],
                resultChanClosed = False, closer = CNotStarted, successIPs = [], failedIPs = [],
                panicked = False\<rparr>)"

text \<open>The scheduler's choice: the main goroutine, the worker launched as number \<open>k\<close>, or
  the closing goroutine.\<close>

datatype action = Main | Worker nat | Closer

definition mainStep :: "sess \<Rightarrow> sess option" where
  "mainStep s =
     (case mainPc s of
        MAdd \<Rightarrow> Some (s\<lparr>wg := wg s + 1, mainPc := MAcquire\<rparr>)
      | MAcquire \<Rightarrow>
          if semaphore s < slots s then Some (s\<lparr>semaphore := semaphore s + 1, mainPc := MSpawn\<rparr>) else None
      | MSpawn \<Rightarrow>
          Some (s\<lparr>workers := workers s @ [\<lparr>wid = idx s, wip = inputIPs s ! idx s, wpc = WRun\<rparr>],
                  idx := idx s + 1,
                  mainPc := (if idx s + 1 < length (inputIPs s) then MAdd else MStartCloser)\<rparr>)
      | MStartCloser \<Rightarrow> Some (s\<lparr>closer := CWait, mainPc := MCollect\<rparr>)
      | MCollect \<Rightarrow>
          (case resultChan s of
             (ip, success) # rest \<Rightarrow>
               Some (if success then s\<lparr>resultChan := rest, successIPs := successIPs s @ [ip]\<rparr>
                     else s\<lparr>resultChan := rest, failedIPs := failedIPs s @ [ip]\<rparr>)
           | [] \<Rightarrow> if resultChanClosed s then Some (s\<lparr>mainPc := MReturned, semaphoreClosed := True\<rparr>) else None)
      | MReturned \<Rightarrow> None)"

text \<open>
  A worker's step. \<open>pingRunner k ip\<close> is what the call \<open>pingRunner(ip, cfg)\<close> of the
  worker launched as number \<open>k\<close> returns; the probe itself is outside the program. A
  send to a closed channel and a negative wait-group counter are Go panics.
\<close>

definition workerStep :: "(nat \<Rightarrow> string \<Rightarrow> bool) \<Rightarrow> nat \<Rightarrow> sess \<Rightarrow> sess option" where
  "workerStep pingRunner k s =
     (if k \<ge> length (workers s) then None
      else
        (let w = workers s ! k in
         case wpc w of
           WRun \<Rightarrow>
             Some (s\<lparr>workers := (workers s)[k := w\<lparr>wpc := WSend (pingRunner (wid w) (wip w))\<rparr>]\<rparr>)
         | WSend success \<Rightarrow>
             if resultChanClosed s then Some (s\<lparr>panicked := True\<rparr>)
             else if length (resultChan s) < length (inputIPs s)
               then Some (s\<lparr>resultChan := resultChan s @ [(wip w, success)],
                            workers := (workers s)[k := w\<lparr>wpc := WRelease\<rparr>]\<rparr>)
             else None
         | WRelease \<Rightarrow>
             if semaphore s > 0
               then Some (s\<lparr>semaphore := semaphore s - 1, workers := (workers s)[k := w\<lparr>wpc := WDone\<rparr>]\<rparr>)
             else if semaphoreClosed s
               then Some (s\<lparr>workers := (workers s)[k := w\<lparr>wpc := WDone\<rparr>]\<rparr>)
             else None
         | WDone \<Rightarrow>
             if wg s \<ge> 1
               then Some (s\<lparr>wg := wg s - 1, workers := (workers s)[k := w\<lparr>wpc := WExit\<rparr>]\<rparr>)
             else Some (s\<lparr>panicked := True\<rparr>)
         | WExit \<Rightarrow> None))"

definition closerStep :: "sess \<Rightarrow> sess option" where
  "closerStep s =
     (case closer s of
        CNotStarted \<Rightarrow> None
      | CWait \<Rightarrow> if wg s = 0 then Some (s\<lparr>closer := CClose\<rparr>) else None
      | CClose \<Rightarrow>
          if resultChanClosed s then Some (s\<lparr>panicked := True\<rparr>)
          else Some (s\<lparr>resultChanClosed := True, closer := CExit\<rparr>)
      | CExit \<Rightarrow> None)"

definition step :: "(nat \<Rightarrow> string \<Rightarrow> bool) \<Rightarrow> action \<Rightarrow> sess \<Rightarrow> sess option" where
  "step pingRunner a s =
     (if panicked s then None
      else case a of
        Main \<Rightarrow> mainStep s
      | Worker k \<Rightarrow> workerStep pingRunner k s
      | Closer \<Rightarrow> closerStep s)"

text \<open>A schedule is the list of the scheduler's choices; running it stops with \<open>None\<close> at
  a choice that is not enabled.\<close>

fun run :: "(nat \<Rightarrow> string \<Rightarrow> bool) \<Rightarrow> action list \<Rightarrow> sess \<Rightarrow> sess option" where
  "run pingRunner [] s = Some s"
| "run pingRunner (a # as) s =
     (case step pingRunner a s of None \<Rightarrow> None | Some s' \<Rightarrow> run pingRunner as s')"

text \<open>The states a call can reach.\<close>

definition reachable :: "(nat \<Rightarrow> string \<Rightarrow> bool) \<Rightarrow> string list \<Rightarrow> int \<Rightarrow> sess \<Rightarrow> bool" where
  "reachable pingRunner addrs concurrency s =
     (\<exists>s0 sched. PingIPsWithConfig_start addrs concurrency = Inr s0
        \<and> run pingRunner sched s0 = Some s)"

text \<open>The campaigns in flight: the workers inside \<open>pingRunner\<close>.\<close>

definition inFlightW :: "worker list \<Rightarrow> nat" where
  "inFlightW ws = length (filter (\<lambda>w. wpc w = WRun) ws)"

definition inFlight :: "sess \<Rightarrow> nat" where
  "inFlight s = inFlightW (workers s)"

text \<open>The workers that hold a slot of the semaphore: launched and not yet past the
  deferred receive.\<close>

definition holdsSlot :: "worker \<Rightarrow> bool" where
  "holdsSlot w = (case wpc w of WRun \<Rightarrow> True | WSend _ \<Rightarrow> True | WRelease \<Rightarrow> True | _ \<Rightarrow> False)"

definition holdersW :: "worker list \<Rightarrow> nat" where
  "holdersW ws = length (filter holdsSlot ws)"

text \<open>The workers that have not finished.\<close>

definition notDoneW :: "worker list \<Rightarrow> nat" where
  "notDoneW ws = length (filter (\<lambda>w. wpc w \<noteq> WExit) ws)"

text \<open>
  The verdicts, as a multiset of pairs of address and success: those collected into the
  two result lists, those a worker still has to deliver (\<open>contrib\<close>, \<open>pendingOf\<close>), and
  those of the addresses from index \<open>i\<close> on (\<open>expectedFrom\<close>).
\<close>

definition collectedOf :: "string list \<Rightarrow> string list \<Rightarrow> (string \<times> bool) multiset" where
  "collectedOf succ failed = mset (map (\<lambda>ip. (ip, True)) succ) + mset (map (\<lambda>ip. (ip, False)) failed)"

definition contrib :: "(nat \<Rightarrow> string \<Rightarrow> bool) \<Rightarrow> worker \<Rightarrow> (string \<times> bool) multiset" where
  "contrib pingRunner w =
     (case wpc w of
        WRun \<Rightarrow> {#(wip w, pingRunner (wid w) (wip w))#}
      | WSend success \<Rightarrow> {#(wip w, success)#}
      | _ \<Rightarrow> {#})"

fun pendingOf :: "(nat \<Rightarrow> string \<Rightarrow> bool) \<Rightarrow> worker list \<Rightarrow> (string \<times> bool) multiset" where
  "pendingOf pingRunner [] = {#}"
| "pendingOf pingRunner (w # ws) = contrib pingRunner w + pendingOf pingRunner ws"

definition expectedFrom ::
  "(nat \<Rightarrow> string \<Rightarrow> bool) \<Rightarrow> string list \<Rightarrow> nat \<Rightarrow> (string \<times> bool) multiset" where
  "expectedFrom pingRunner addrs i =
     mset (map (\<lambda>k. (addrs ! k, pingRunner k (addrs ! k))) [i ..< length addrs])"

definition launching :: "mpc \<Rightarrow> bool" where
  "launching pc = (pc = MAdd \<or> pc = MAcquire \<or> pc = MSpawn)"

text \<open>The semaphore holds one token for each worker that holds a slot, and one more
  between the send of the main goroutine and its \<open>go\<close> statement; it never holds more
  tokens than it has slots.\<close>

definition slotInv :: "sess \<Rightarrow> bool" where
  "slotInv s =
     (semaphore s = holdersW (workers s) + (if mainPc s = MSpawn then 1 else 0) \<and> semaphore s \<le> slots s)"

text \<open>
  The invariant of a call: no panic; the launch loop is inside the list; the wait
  group counts the unfinished workers (and the one being launched); the closing
  goroutine runs only after the launch loop, passes \<open>wg.Wait()\<close> only when every worker
  has finished, and alone closes the result channel; the function returns only with
  an empty channel; and every verdict is in exactly one place.
\<close>

definition sessInv :: "(nat \<Rightarrow> string \<Rightarrow> bool) \<Rightarrow> sess \<Rightarrow> bool" where
  "sessInv pingRunner s =
     (\<not> panicked s
      \<and> (if launching (mainPc s) then idx s < length (inputIPs s) else idx s = length (inputIPs s))
      \<and> wg s = int (notDoneW (workers s))
                + (if mainPc s = MAcquire \<or> mainPc s = MSpawn then 1 else 0)
      \<and> (closer s = CNotStarted \<longrightarrow> mainPc s \<noteq> MCollect)
      \<and> (closer s \<noteq> CNotStarted \<longrightarrow> mainPc s = MCollect \<or> mainPc s = MReturned)
      \<and> (closer s = CClose \<or> closer s = CExit \<longrightarrow> notDoneW (workers s) = 0)
      \<and> (resultChanClosed s = (closer s = CExit))
      \<and> (mainPc s = MReturned \<longrightarrow> resultChan s = [] \<and> notDoneW (workers s) = 0)
      \<and> collectedOf (successIPs s) (failedIPs s) + mset (resultChan s)
            + pendingOf pingRunner (workers s) + expectedFrom pingRunner (inputIPs s) (idx s)
          = expectedFrom pingRunner (inputIPs s) 0)"


text \<open>
  The number of steps a call still has to take: the statements left in the launch
  loop and in the workers not yet launched, the \<open>go\<close> statement of the closing
  goroutine and the return, the steps of the closing goroutine, the results still to
  collect, and the statements left in each worker.
\<close>

fun stepsOfWorker :: "wpc \<Rightarrow> nat" where
  "stepsOfWorker WRun = 4"
| "stepsOfWorker (WSend success) = 3"
| "stepsOfWorker WRelease = 2"
| "stepsOfWorker WDone = 1"
| "stepsOfWorker WExit = 0"

definition stepsOfWorkers :: "worker list \<Rightarrow> nat" where
  "stepsOfWorkers ws = sum_list (map (\<lambda>w. stepsOfWorker (wpc w)) ws)"

definition stepsLeft :: "sess \<Rightarrow> nat" where
  "stepsLeft s =
     (case mainPc s of MAdd \<Rightarrow> 3 | MAcquire \<Rightarrow> 2 | MSpawn \<Rightarrow> 1 | _ \<Rightarrow> 0)
     + (if launching (mainPc s) then 4 + 7 * (length (inputIPs s) - idx s - 1) else 0)
     + (case mainPc s of MReturned \<Rightarrow> 0 | MCollect \<Rightarrow> 1 | _ \<Rightarrow> 2)
     + (case closer s of CNotStarted \<Rightarrow> 2 | CWait \<Rightarrow> 2 | CClose \<Rightarrow> 1 | CExit \<Rightarrow> 0)
     + (length (inputIPs s) - (length (successIPs s) + length (failedIPs s)))
     + stepsOfWorkers (workers s)"

text \<open>
  A whole call under a schedule: the error of the sequential beginning, or the two
  lists returned when the schedule runs the call to its return, or \<open>None\<close> when the
  schedule is not one of the call or stops before the return.
\<close>

definition PingIPsWithConfig ::
  "(nat \<Rightarrow> string \<Rightarrow> bool) \<Rightarrow> action list \<Rightarrow> string list \<Rightarrow> int
     \<Rightarrow> sessError + (string list \<times> string list) option" where
  "PingIPsWithConfig pingRunner sched addrs concurrency =
     (case PingIPsWithConfig_start addrs concurrency of
        Inl e \<Rightarrow> Inl e
      | Inr s0 \<Rightarrow>
          Inr (case run pingRunner sched s0 of
                 None \<Rightarrow> None
               | Some s \<Rightarrow> if mainPc s = MReturned then Some (successIPs s, failedIPs s) else None))"

text \<open>Scripted verdicts for concrete runs: the worker launched as number \<open>k\<close> gets the
  \<open>k\<close>-th verdict of the list.\<close>

definition verdicts :: "bool list \<Rightarrow> nat \<Rightarrow> string \<Rightarrow> bool" where
  "verdicts vs k ip = (k < length vs \<and> vs ! k)"

text \<open>
  By default \<open>pingRunner\<close> is \<open>pingWithRetry\<close>: the worker launched as number \<open>k\<close> runs
  the campaign of its address on the results \<open>execs k\<close> of its ping commands.
\<close>

definition pingRunnerDefault ::
  "(nat \<Rightarrow> int \<Rightarrow> string \<times> bool) \<Rightarrow> PingConfig \<Rightarrow> nat \<Rightarrow> string \<Rightarrow> bool" where
  "pingRunnerDefault execs cfg k ip = pingWithRetry (execs k) cfg"

text \<open>A schedule for two addresses that runs each worker to its end before the next
  statement of the main goroutine.\<close>

definition serialSchedule2 :: "action list" where
  "serialSchedule2 =
     [Main, Main, Main, Worker 0, Worker 0, Worker 0, Worker 0,
      Main, Main, Main, Worker 1, Worker 1, Worker 1, Worker 1,
      Main, Closer, Closer, Main, Main, Main]"

section \<open>Properties of the probe classifier\<close>

text \<open>
  The classifier is a disjunction of its four tests: no rule ever answers failure, a rule
  that does not answer success only passes the text on to the next one.
\<close>

lemma parsePingOutputSuccess_disjunction:
  "parsePingOutputSuccess text =
     ((\<exists>m. FindStringSubmatch reReceived (ToLower text) = Some m \<and> m \<noteq> ''0'')
      \<or> (\<exists>m. FindStringSubmatch rePacketsReceived (ToLower text) = Some m \<and> m \<noteq> ''0'')
      \<or> FindStringSubmatch reLoss (ToLower text) = Some ''0''
      \<or> (\<exists>s \<in> set indicators. Contains (ToLower text) s))"
  by (auto simp add: parsePingOutputSuccess_def Let_def list_ex_iff split: option.splits)

text \<open>The summary line of a probe that lost its only packet is classified as failure.\<close>

lemma total_loss_classified_failure:
  "parsePingOutputSuccess ''1 packets transmitted, 0 received, 100% packet loss, time 0ms''
     = False"
  by code_simp

text \<open>
  A loss percentage written with decimals is read from the digits after the point: in
  \<open>100.0% packet loss\<close> the third expression matches at \<open>0%\<close>, captures \<open>0\<close>, and the
  summary line of a lost packet is classified as success.
\<close>

lemma total_loss_with_decimals_classified_success:
  "FindStringSubmatch reLoss
     (ToLower ''1 packets transmitted, 0 packets received, 100.0% packet loss'') = Some ''0''
   \<and> parsePingOutputSuccess ''1 packets transmitted, 0 packets received, 100.0% packet loss''
       = True"
  by code_simp

text \<open>The case folding of a literal: the long s is matched by the \<open>s\<close> of \<open>packets\<close>.\<close>

lemma rePacketsReceived_long_s:
  "FindStringSubmatch rePacketsReceived (''3 packet'' @ [CHR 0xC5, CHR 0xBF] @ '' received'')
     = Some ''3''"
  by code_simp

text \<open>
  Claim C3: every text with a zero count immediately followed by \<open>received\<close> is
  classified as failure, also when it contains a generic reply indicator, because the
  count rules decide before the indicators are consulted. The comments of
  \<open>parsePingOutputSuccess\<close> state this intent (the expressions with a count come first
  ``to avoid judging \<open>0 received\<close> as success'', and the text succeeds ``only when the
  received count is above 0''), but the code does not do it. In the text
  \<open>0 received, ttl=54\<close> the first expression matches and captures the count \<open>0\<close>; the
  rule then returns nothing, the text contains the indicator \<open>ttl=\<close>, and the classifier
  returns success.
\<close>

theorem C3_zero_received_classified_success:
  "FindStringSubmatch reReceived (ToLower ''0 received, ttl=54'') = Some ''0''
   \<and> Contains (ToLower ''0 received, ttl=54'') ''ttl=''
   \<and> parsePingOutputSuccess ''0 received, ttl=54'' = True"
  by code_simp

section \<open>Properties of the decision state machine\<close>

lemma attemptOk_empty_failed: "attemptOk ('''', False) = False"
  by code_simp

lemma attemptOk_timed_out: "attemptOk (''Request timed out.'', False) = False"
  by code_simp

text \<open>A campaign whose attempts all fail stops at the consecutive-failure threshold.\<close>

lemma pingLoop_all_fail:
  "(\<forall>j. \<not> attemptOk (exec j)) \<Longrightarrow> 0 \<le> consecFails \<Longrightarrow> consecFails < cfs \<Longrightarrow>
   i + (cfs - consecFails) \<le> maxRetries \<Longrightarrow>
     pingLoop exec maxRetries need cfs i successes consecFails =
       \<lparr>verdict = False, attempts = i + (cfs - consecFails), exit = ExitConsecFail\<rparr>"
proof (induction exec maxRetries need cfs i successes consecFails rule: pingLoop.induct)
  case (1 exec maxRetries successNeed consecFailStop i successes consecFails)
  show ?case
  proof (cases "consecFails + 1 \<ge> consecFailStop")
    case True
    with 1 show ?thesis by (subst pingLoop.simps) auto
  next
    case False
    with 1 show ?thesis by (subst pingLoop.simps) auto
  qed
qed

text \<open>
  With a failure threshold above the number of attempts allowed, the loop ends at the
  success threshold or at the last attempt.
\<close>

lemma pingLoop_exit:
  "0 \<le> i \<Longrightarrow> i < maxRetries \<Longrightarrow> consecFails \<le> i \<Longrightarrow> maxRetries < cfs \<Longrightarrow>
     exit (pingLoop exec maxRetries need cfs i successes consecFails)
       \<in> {ExitSuccessNeed, ExitLastAttempt}"
proof (induction exec maxRetries need cfs i successes consecFails rule: pingLoop.induct)
  case (1 exec maxRetries successNeed consecFailStop i successes consecFails)
  then show ?case by (subst pingLoop.simps) auto
qed

text \<open>
  Claim C4, as stated: the outcomes \<open>[true, true]\<close> with success threshold 2 give
  reachable after 2 attempts for every value of \<open>maxAttempts\<close>. This fails for
  \<open>maxAttempts = 1\<close>: both \<open>evaluatePingSequence\<close> and \<open>pingWithRetry\<close> stop after the
  one attempt allowed, with one success, and the verdict is unreachable.
\<close>

theorem C4_early_exit_counterexample:
  "evaluatePingSequenceRun [True, True] 1 2 3
     = \<lparr>verdict = False, attempts = 1, exit = ExitLoopEnd\<rparr>
   \<and> pingWithRetryRun (constExec ('''', True)) (defaultPingConfig\<lparr>MaxAttempts := 1\<rparr>)
       = \<lparr>verdict = False, attempts = 1, exit = ExitLastAttempt\<rparr>"
  by (simp add: evaluatePingSequenceRun_def pingWithRetryRun_def defaultPingConfig_def
      constExec_def attemptOk_def pingLoop.simps)

text \<open>
  Claim C4, amended: with success threshold 2 and \<open>maxAttempts\<close> at least 2, two
  successful attempts give the verdict reachable after exactly 2 attempts; with
  consecutive-failure threshold 3 and \<open>maxAttempts\<close> at least 3, three failed attempts
  give the verdict unreachable after exactly 3 attempts. Both hold for
  \<open>evaluatePingSequence\<close> and for \<open>pingWithRetry\<close>.
\<close>

theorem C4_early_exit:
  "(2 \<le> maxAttempts \<longrightarrow>
      evaluatePingSequenceRun [True, True] maxAttempts 2 cfs
        = \<lparr>verdict = True, attempts = 2, exit = ExitSuccessNeed\<rparr>)
   \<and> (2 \<le> MaxAttempts cfg \<and> SuccessNeed cfg = 2 \<and> attemptOk (exec 0) \<and> attemptOk (exec 1) \<longrightarrow>
      pingWithRetryRun exec cfg = \<lparr>verdict = True, attempts = 2, exit = ExitSuccessNeed\<rparr>)
   \<and> (3 \<le> maxAttempts' \<longrightarrow>
      evaluatePingSequenceRun [False, False, False] maxAttempts' need 3
        = \<lparr>verdict = False, attempts = 3, exit = ExitConsecFail\<rparr>)
   \<and> (3 \<le> MaxAttempts cfg' \<and> ConsecutiveFailStop cfg' = 3
        \<and> \<not> attemptOk (exec' 0) \<and> \<not> attemptOk (exec' 1) \<and> \<not> attemptOk (exec' 2) \<longrightarrow>
      pingWithRetryRun exec' cfg' = \<lparr>verdict = False, attempts = 3, exit = ExitConsecFail\<rparr>)"
  by (simp add: evaluatePingSequenceRun_def pingWithRetryRun_def pingLoop.simps)

theorem C4_early_exit_witness:
  "(2::int) \<le> 5
   \<and> evaluatePingSequenceRun [True, True] 5 2 3
       = \<lparr>verdict = True, attempts = 2, exit = ExitSuccessNeed\<rparr>
   \<and> pingWithRetryRun (constExec ('''', True)) defaultPingConfig
       = \<lparr>verdict = True, attempts = 2, exit = ExitSuccessNeed\<rparr>
   \<and> evaluatePingSequenceRun [False, False, False] 5 2 3
       = \<lparr>verdict = False, attempts = 3, exit = ExitConsecFail\<rparr>
   \<and> pingWithRetryRun (constExec (''Request timed out.'', False)) defaultPingConfig
       = \<lparr>verdict = False, attempts = 3, exit = ExitConsecFail\<rparr>"
  using C4_early_exit [where maxAttempts = 5 and cfs = 3 and cfg = defaultPingConfig
      and exec = "constExec ('''', True)" and maxAttempts' = 5 and need = 2
      and cfg' = defaultPingConfig and exec' = "constExec (''Request timed out.'', False)"]
  by (simp add: defaultPingConfig_def constExec_def attemptOk_timed_out) (simp add: attemptOk_def)

text \<open>
  Claim C7, as stated, says in its third part that a campaign whose consecutive-failure
  threshold is disabled (not positive) never ends by the consecutive-failure rule. The
  code disables the rule by setting the threshold to \<open>math.MaxInt32\<close>, so the rule still
  fires after 2147483647 failures in a row: with \<open>maxAttempts = 2147483648\<close> (a value of a
  64-bit Go \<open>int\<close>) and attempts that all fail, the campaign ends by that rule one
  attempt before exhaustion.
\<close>

theorem C7_disabled_threshold_counterexample:
  "pingWithRetryRun (constExec ('''', False))
     \<lparr>MaxAttempts = 2147483648, SuccessNeed = 1, ConsecutiveFailStop = 0,
      Timeout = 2000000000, AttemptInterval = 1000000000\<rparr>
   = \<lparr>verdict = False, attempts = 2147483647, exit = ExitConsecFail\<rparr>"
proof -
  have "\<forall>j. \<not> attemptOk (constExec ('''', False) j)"
    by (simp add: constExec_def attemptOk_empty_failed)
  from pingLoop_all_fail [OF this, where consecFails = 0 and cfs = MaxInt32 and i = 0
      and maxRetries = 2147483648 and need = 1 and successes = 0]
  show ?thesis by (simp add: pingWithRetryRun_def MaxInt32_def)
qed

text \<open>
  Claim C7, amended: a campaign with \<open>maxAttempts \<le> 0\<close> returns unreachable after zero
  attempts; a campaign with success threshold below 1 runs exactly as with success
  threshold 1; and a campaign with a disabled (not positive) consecutive-failure
  threshold and \<open>maxAttempts\<close> below 2147483647 ends only by the zero-attempt return, by
  the success threshold or at the last attempt, never by the consecutive-failure rule.
\<close>

theorem C7_policy_normalisation:
  "(MaxAttempts cfg \<le> 0 \<longrightarrow>
      pingWithRetryRun exec cfg = \<lparr>verdict = False, attempts = 0, exit = ExitNoAttempts\<rparr>)
   \<and> (SuccessNeed cfgB < 1 \<longrightarrow>
      pingWithRetryRun exec cfgB = pingWithRetryRun exec (cfgB\<lparr>SuccessNeed := 1\<rparr>))
   \<and> (ConsecutiveFailStop cfgC \<le> 0 \<and> MaxAttempts cfgC < MaxInt32 \<longrightarrow>
      exit (pingWithRetryRun exec cfgC) \<in> {ExitNoAttempts, ExitSuccessNeed, ExitLastAttempt})"
proof (intro conjI impI)
  assume "MaxAttempts cfg \<le> 0"
  then show "pingWithRetryRun exec cfg = \<lparr>verdict = False, attempts = 0, exit = ExitNoAttempts\<rparr>"
    by (simp add: pingWithRetryRun_def)
next
  assume "SuccessNeed cfgB < 1"
  then show "pingWithRetryRun exec cfgB = pingWithRetryRun exec (cfgB\<lparr>SuccessNeed := 1\<rparr>)"
    by (simp add: pingWithRetryRun_def Let_def)
next
  assume a: "ConsecutiveFailStop cfgC \<le> 0 \<and> MaxAttempts cfgC < MaxInt32"
  show "exit (pingWithRetryRun exec cfgC) \<in> {ExitNoAttempts, ExitSuccessNeed, ExitLastAttempt}"
  proof (cases "MaxAttempts cfgC \<le> 0")
    case True
    then show ?thesis by (simp add: pingWithRetryRun_def)
  next
    case False
    with a pingLoop_exit [where i = 0 and maxRetries = "MaxAttempts cfgC" and consecFails = 0
        and cfs = MaxInt32 and exec = exec and successes = 0
        and need = "if SuccessNeed cfgC \<le> 0 then 1 else SuccessNeed cfgC"]
    show ?thesis by (simp add: pingWithRetryRun_def Let_def)
  qed
qed

theorem C7_policy_normalisation_witness:
  "pingWithRetryRun (constExec ('''', True)) (defaultPingConfig\<lparr>MaxAttempts := 0\<rparr>)
     = \<lparr>verdict = False, attempts = 0, exit = ExitNoAttempts\<rparr>
   \<and> pingWithRetryRun (constExec ('''', True)) (defaultPingConfig\<lparr>SuccessNeed := 0\<rparr>)
     = pingWithRetryRun (constExec ('''', True)) (defaultPingConfig\<lparr>SuccessNeed := 1\<rparr>)
   \<and> exit (pingWithRetryRun (constExec (''Request timed out.'', False))
         (defaultPingConfig\<lparr>ConsecutiveFailStop := 0\<rparr>))
       \<in> {ExitNoAttempts, ExitSuccessNeed, ExitLastAttempt}"
  using C7_policy_normalisation [where cfg = "defaultPingConfig\<lparr>MaxAttempts := 0\<rparr>"
      and cfgB = "defaultPingConfig\<lparr>SuccessNeed := 0\<rparr>"
      and cfgC = "defaultPingConfig\<lparr>ConsecutiveFailStop := 0\<rparr>"
      and exec = "constExec ('''', True)"]
    C7_policy_normalisation [where cfg = "defaultPingConfig\<lparr>MaxAttempts := 0\<rparr>"
      and cfgB = "defaultPingConfig\<lparr>SuccessNeed := 0\<rparr>"
      and cfgC = "defaultPingConfig\<lparr>ConsecutiveFailStop := 0\<rparr>"
      and exec = "constExec (''Request timed out.'', False)"]
  by (simp add: defaultPingConfig_def MaxInt32_def)

section \<open>Properties of the address expander\<close>

subsection \<open>Bytes and 32-bit values\<close>

lemma incIP4:
  "incIP [a, b, c, d] =
     (if d + 1 \<noteq> 0 then [a, b, c, d + 1]
      else if c + 1 \<noteq> 0 then [a, b, c + 1, 0]
      else if b + 1 \<noteq> 0 then [a, b + 1, 0, 0]
      else [a + 1, 0, 0, 0])"
  by (simp add: incIP_def numeral_eq_Suc Let_def)

lemma ipVal4: "ipVal [a, b, c, d] = push_bit 24 (ucast a) OR push_bit 16 (ucast b)
              OR push_bit 8 (ucast c) OR ucast d"
  by (simp add: ipVal_def)

lemma unat_byte_lt: "unat (x :: byte) < 256"
  using unsigned_less [of x, where 'a = nat] by simp

lemma unat_shift_byte:
  "n \<le> 24 \<Longrightarrow> unat (push_bit n (ucast (x :: byte) :: 32 word)) = unat x * 2 ^ n"
proof -
  assume n: "n \<le> 24"
  have "unat x * 2 ^ n < 256 * 2 ^ n" using unat_byte_lt [of x] by simp
  also have "(256::nat) * 2 ^ n = 2 ^ (8 + n)" by (simp add: power_add)
  also have "\<dots> \<le> (2::nat) ^ 32" using n by (intro power_increasing) auto
  finally have lt: "unat x * 2 ^ n < 2 ^ 32" .
  have u: "unat (ucast x :: 32 word) = unat x"
    by (simp add: unsigned_ucast_eq take_bit_eq_mod) (use unat_byte_lt [of x] in simp)
  have "unat (push_bit n (ucast x :: 32 word)) = take_bit 32 (push_bit n (unat (ucast x :: 32 word)))"
    by (subst unsigned_push_bit_eq) simp
  also have "\<dots> = (unat x * 2 ^ n) mod 2 ^ 32"
    by (simp only: u push_bit_eq_mult take_bit_eq_mod)
  also have "\<dots> = unat x * 2 ^ n"
    using lt by simp
  finally show ?thesis .
qed

lemma ipVal4_sum:
  "ipVal [a, b, c, d] = push_bit 24 (ucast a) + (push_bit 16 (ucast b)
              + (push_bit 8 (ucast c) + ucast d))"
proof -
  have 1: "push_bit 8 (ucast c :: 32 word) + ucast d = push_bit 8 (ucast c) OR ucast d"
    by (rule disjunctive_add) (auto simp add: bit_simps dest: bit_imp_le_length)
  have 2: "push_bit 16 (ucast b :: 32 word) + (push_bit 8 (ucast c) OR ucast d)
        = push_bit 16 (ucast b) OR (push_bit 8 (ucast c) OR ucast d)"
    by (rule disjunctive_add) (auto simp add: bit_simps dest: bit_imp_le_length)
  have 3: "push_bit 24 (ucast a :: 32 word) + (push_bit 16 (ucast b) OR (push_bit 8 (ucast c) OR ucast d))
        = push_bit 24 (ucast a) OR (push_bit 16 (ucast b) OR (push_bit 8 (ucast c) OR ucast d))"
    by (rule disjunctive_add) (auto simp add: bit_simps dest: bit_imp_le_length)
  have "ipVal [a, b, c, d]
      = push_bit 24 (ucast a) OR (push_bit 16 (ucast b) OR (push_bit 8 (ucast c) OR ucast d))"
    by (simp only: ipVal4 or.assoc)
  also have "\<dots> = push_bit 24 (ucast a) + (push_bit 16 (ucast b) OR (push_bit 8 (ucast c) OR ucast d))"
    by (rule 3 [symmetric])
  also have "\<dots> = push_bit 24 (ucast a) + (push_bit 16 (ucast b) + (push_bit 8 (ucast c) OR ucast d))"
    by (simp only: 2)
  also have "\<dots> = push_bit 24 (ucast a) + (push_bit 16 (ucast b) + (push_bit 8 (ucast c) + ucast d))"
    by (simp only: 1)
  finally show ?thesis .
qed

lemma unat_ipVal4:
  "unat (ipVal [a, b, c, d]) = unat a * 2^24 + unat b * 2^16 + unat c * 2^8 + unat d"
proof -
  have d: "unat (ucast d :: 32 word) = unat d"
    using unat_shift_byte [of 0 d] by simp
  have bound: "unat a * 2^24 + unat b * 2^16 + unat c * 2^8 + unat d < 2 ^ 32"
    using unat_byte_lt [of a] unat_byte_lt [of b] unat_byte_lt [of c] unat_byte_lt [of d]
    by simp
  show ?thesis
    unfolding ipVal4_sum
    using bound
    by (simp add: unat_word_ariths unat_shift_byte d)
qed

lemma ipVal_incIP4: "ipVal (incIP [a, b, c, d]) = ipVal [a, b, c, d] + 1"
proof -
  have m: "x + 1 = 0 \<Longrightarrow> unat x = 255" for x :: byte
    using max_word_wrap [of x] by (auto simp add: unsigned_minus_1_eq_mask mask_eq_exp_minus_1)
  have s: "x + 1 \<noteq> 0 \<Longrightarrow> unat (x + 1) = unat x + 1" for x :: byte
    using unatSuc [of x] by (simp add: add.commute)
  have z: "unat (0 :: byte) = 0" by simp
  have "unat (ipVal (incIP [a, b, c, d])) = (unat (ipVal [a, b, c, d]) + 1) mod 2 ^ 32"
    using unat_byte_lt [of a] unat_byte_lt [of b] unat_byte_lt [of c] unat_byte_lt [of d]
      unat_byte_lt [of "a + 1"] unat_byte_lt [of "b + 1"] unat_byte_lt [of "c + 1"]
      unat_byte_lt [of "d + 1"]
    by (cases "d + 1 = 0"; cases "c + 1 = 0"; cases "b + 1 = 0"; cases "a + 1 = 0")
       (simp_all add: incIP4 unat_ipVal4 m s)
  then show ?thesis
    by (simp add: word_unat_eq_iff unat_word_ariths)
qed

lemma compareIP4:
  "(compareIP [a, b, c, d] [e, f, g, h] \<le> 0) = (ipVal [a, b, c, d] \<le> ipVal [e, f, g, h])"
  using unat_byte_lt [of a] unat_byte_lt [of b] unat_byte_lt [of c] unat_byte_lt [of d]
    unat_byte_lt [of e] unat_byte_lt [of f] unat_byte_lt [of g] unat_byte_lt [of h]
  by (auto simp add: compareIP_def word_le_nat_alt word_less_nat_alt unat_ipVal4 word_unat_eq_iff)

lemma length4E:
  assumes "length bs = 4"
  obtains a b c d where "bs = [a, b, c, d]"
  using assms by (auto simp add: length_Suc_conv numeral_eq_Suc)

lemma ipVal_addrBytes: "ipVal (addrBytes w) = w"
  unfolding addrBytes_def ipVal4
proof (rule bit_word_eqI)
  fix n
  assume "n < LENGTH(32)"
  then consider "n < 8" | "8 \<le> n" "n < 16" | "16 \<le> n" "n < 24" | "24 \<le> n" "n < 32"
    by fastforce
  then show "bit (push_bit 24 (ucast (ucast (drop_bit 24 w) :: byte)) OR
       push_bit 16 (ucast (ucast (drop_bit 16 w) :: byte)) OR
       push_bit 8 (ucast (ucast (drop_bit 8 w) :: byte)) OR ucast (ucast w :: byte) :: 32 word) n
       = bit w n"
    by cases (auto simp add: bit_simps)
qed

lemma addrBytes_ipVal4: "addrBytes (ipVal [a, b, c, d]) = [a, b, c, d]"
proof -
  have "ucast (drop_bit 24 (ipVal [a, b, c, d])) = a"
    unfolding ipVal4 by (rule bit_word_eqI) (auto simp add: bit_simps dest: bit_imp_le_length)
  moreover have "ucast (drop_bit 16 (ipVal [a, b, c, d])) = b"
    unfolding ipVal4 by (rule bit_word_eqI) (auto simp add: bit_simps dest: bit_imp_le_length)
  moreover have "ucast (drop_bit 8 (ipVal [a, b, c, d])) = c"
    unfolding ipVal4 by (rule bit_word_eqI) (auto simp add: bit_simps dest: bit_imp_le_length)
  moreover have "ucast (ipVal [a, b, c, d]) = d"
    unfolding ipVal4 by (rule bit_word_eqI) (auto simp add: bit_simps dest: bit_imp_le_length)
  ultimately show ?thesis by (simp add: addrBytes_def)
qed

lemma addrBytes_ipVal: "length bs = 4 \<Longrightarrow> addrBytes (ipVal bs) = bs"
  by (erule length4E) (simp add: addrBytes_ipVal4)

lemma length_addrBytes: "length (addrBytes w) = 4"
  by (simp add: addrBytes_def)

lemma incIP_addrBytes: "incIP (addrBytes w) = addrBytes (w + 1)"
proof -
  obtain a b c d where e: "addrBytes w = [a, b, c, d]"
    by (simp add: addrBytes_def)
  have "length (incIP [a, b, c, d]) = 4" by (simp add: incIP4)
  then have "addrBytes (ipVal (incIP [a, b, c, d])) = incIP [a, b, c, d]"
    by (rule addrBytes_ipVal)
  moreover have "ipVal (incIP [a, b, c, d]) = w + 1"
    using ipVal_addrBytes [of w] by (simp add: ipVal_incIP4 e)
  ultimately show ?thesis by (simp add: e)
qed

lemma compareIP_addrBytes: "(compareIP (addrBytes v) (addrBytes w) \<le> 0) = (v \<le> w)"
proof -
  obtain a b c d where e: "addrBytes v = [a, b, c, d]"
    by (simp add: addrBytes_def)
  obtain a' b' c' d' where e': "addrBytes w = [a', b', c', d']"
    by (simp add: addrBytes_def)
  show ?thesis
    using ipVal_addrBytes [of v] ipVal_addrBytes [of w] by (simp add: e e' compareIP4)
qed

text \<open>The loop over a range that does not end at the largest address.\<close>

lemma rangeLoop_addr:
  "e \<noteq> - 1 \<Longrightarrow> unat v + n = unat e + 1 \<Longrightarrow>
     rangeLoop (addrBytes v) (addrBytes e) acc
       = Some (acc @ map (\<lambda>k. addrString (v + of_nat k)) [0 ..< n])"
proof (induction n arbitrary: v acc)
  case 0
  then have "\<not> v \<le> e" by (simp add: word_le_nat_alt)
  then show ?case
    by (subst rangeLoop.simps) (simp add: compareIP_addrBytes)
next
  case (Suc n)
  then have le: "v \<le> e" by (simp add: word_le_nat_alt)
  have "unat e \<noteq> unat (- 1 :: 32 word)"
    using Suc.prems(1) by (simp add: word_unat_eq_iff)
  moreover have "unat (- 1 :: 32 word) = 2 ^ 32 - 1"
    by (simp add: unsigned_minus_1_eq_mask mask_eq_exp_minus_1)
  moreover have "unat e < 2 ^ 32"
    using unsigned_less [of e, where 'a = nat] by simp
  ultimately have "unat e < 2 ^ 32 - 1" by simp
  with Suc.prems have v1: "unat (v + 1) = unat v + 1"
    by (simp add: unat_word_ariths)
  with Suc.prems have "unat (v + 1) + n = unat e + 1" by simp
  from Suc.IH [OF Suc.prems(1) this]
  have IH: "rangeLoop (addrBytes (v + 1)) (addrBytes e) (acc @ [addrString v])
       = Some ((acc @ [addrString v]) @ map (\<lambda>k. addrString (v + 1 + of_nat k)) [0 ..< n])" .
  have "map (\<lambda>k. addrString (v + of_nat k)) [0 ..< Suc n]
      = addrString v # map (\<lambda>k. addrString (v + 1 + of_nat k)) [0 ..< n]"
    by (simp add: upt_conv_Cons map_Suc_upt [symmetric] del: upt_Suc add: ac_simps)
  with IH le show ?case
    by (subst rangeLoop.simps) (simp add: compareIP_addrBytes incIP_addrBytes addrString_def)
qed

text \<open>The loop over a range that ends at 255.255.255.255 never returns.\<close>

lemma rangeLoop_max_end:
  assumes run: "rangeLoop current endBytes ips = Some y"
  shows "length current = 4 \<longrightarrow> endBytes = [255, 255, 255, 255] \<longrightarrow> False"
proof (rule rangeLoop.raw_induct
    [where P = "\<lambda>c e i y. length c = 4 \<longrightarrow> e = [255, 255, 255, 255] \<longrightarrow> False", OF _ run])
  fix loop :: "byte list \<Rightarrow> byte list \<Rightarrow> string list \<Rightarrow> string list option"
  fix c e i y'
  assume IH: "\<And>c e i y. loop c e i = Some y \<Longrightarrow>
      length c = 4 \<longrightarrow> e = [255, 255, 255, 255] \<longrightarrow> False"
  assume step: "(if compareIP c e \<le> 0 then loop (incIP c) e (i @ [currentString c]) else Some i)
      = Some y'"
  show "length c = 4 \<longrightarrow> e = [255, 255, 255, 255] \<longrightarrow> False"
  proof (intro impI)
    assume len: "length c = 4" and e: "e = [255, 255, 255, 255]"
    obtain a b c' d where c: "c = [a, b, c', d]"
      using len by (rule length4E)
    have "ipVal [255, 255, 255, 255] = - 1"
      by (simp add: ipVal4)
    then have "compareIP c e \<le> 0"
      by (simp add: c e compareIP4)
    with step have "loop (incIP c) e (i @ [currentString c]) = Some y'"
      by simp
    moreover have "length (incIP c) = 4" by (simp add: c incIP4)
    ultimately show False using IH e by blast
  qed
qed

lemma To4_length: "To4 ip = Some bs \<Longrightarrow> length bs = 4"
  by (auto simp add: To4_def split: if_splits)

lemma copy4_id: "length bs = 4 \<Longrightarrow> copy4 bs = bs"
  by (simp add: copy4_def)

lemma ipVal_max: "ipVal [255, 255, 255, 255] = - 1"
  by (simp add: ipVal4)

lemma compareIP_ipVal:
  "length x = 4 \<Longrightarrow> length y = 4 \<Longrightarrow> (compareIP x y \<le> 0) = (ipVal x \<le> ipVal y)"
  by (elim length4E) (simp add: compareIP4)

lemma rangeLoop_None_max_end:
  "length current = 4 \<Longrightarrow> rangeLoop current [255, 255, 255, 255] ips = None"
  using rangeLoop_max_end [of current "[255, 255, 255, 255]" ips]
  by (cases "rangeLoop current [255, 255, 255, 255] ips") auto

text \<open>A range line that passes every check and ends at 255.255.255.255 never returns.\<close>

lemma parseIPRange_max_end:
  assumes "Split line CHR ''-'' = [p, q]"
    and "ParseIP (TrimSpace p) = Some ip0" and "ParseIP (TrimSpace q) = Some ip1"
    and "To4 ip0 = Some sb" and "To4 ip1 = Some [255, 255, 255, 255]"
    and "rangeCount sb [255, 255, 255, 255] \<le> 1000000"
  shows "parseIPRange ParseIP line = None"
proof -
  have len: "length sb = 4" using assms(4) by (rule To4_length)
  then have "compareIP sb [255, 255, 255, 255] \<le> 0"
    by (simp add: compareIP_ipVal ipVal_max)
  then show ?thesis
    using assms len
    by (simp add: parseIPRange_def To4Opt_def copy4_id rangeLoop_None_max_end not_less [symmetric])
qed

lemma unat_rangeCount:
  assumes "ipVal sb \<le> ipVal eb" and "ipVal eb \<noteq> - 1"
  shows "unat (rangeCount sb eb) = unat (ipVal eb) - unat (ipVal sb) + 1"
proof -
  have "unat (ipVal eb) \<noteq> unat (- 1 :: 32 word)"
    using assms(2) by (simp add: word_unat_eq_iff)
  moreover have "unat (- 1 :: 32 word) = 2 ^ 32 - 1"
    by (simp add: unsigned_minus_1_eq_mask mask_eq_exp_minus_1)
  moreover have "unat (ipVal eb) < 2 ^ 32"
    using unsigned_less [of "ipVal eb", where 'a = nat] by simp
  ultimately have lt: "unat (ipVal eb) < 2 ^ 32 - 1" by simp
  have le: "unat (ipVal sb) \<le> unat (ipVal eb)"
    using assms(1) by (simp add: word_le_nat_alt)
  have "unat (ipVal eb - ipVal sb) = unat (ipVal eb) - unat (ipVal sb)"
    using assms(1) by (simp add: unat_sub)
  then have "unat (ipVal eb - ipVal sb + 1) = unat (ipVal eb) - unat (ipVal sb) + 1"
    using lt le by (simp add: unat_word_ariths)
  moreover have "unat (ucast w :: 64 word) = unat w" for w :: "32 word"
    using unsigned_less [of w, where 'a = nat]
    by (simp add: unsigned_ucast_eq take_bit_eq_mod)
  ultimately show ?thesis
    by (simp add: rangeCount_def)
qed

text \<open>A range that does not end at 255.255.255.255: every address from start to end.\<close>

lemma parseIPRange_expands:
  assumes "Split line CHR ''-'' = [p, q]"
    and "ParseIP (TrimSpace p) = Some ip0" and "ParseIP (TrimSpace q) = Some ip1"
    and "To4 ip0 = Some sb" and "To4 ip1 = Some eb"
    and le: "ipVal sb \<le> ipVal eb"
    and cnt: "unat (ipVal eb) - unat (ipVal sb) + 1 \<le> 1000000"
    and nomax: "ipVal eb \<noteq> - 1"
  shows "parseIPRange ParseIP line =
     Some (Inr (map (\<lambda>k. addrString (ipVal sb + of_nat k))
       [0 ..< unat (ipVal eb) - unat (ipVal sb) + 1]))"
proof -
  have ls: "length sb = 4" using assms(4) by (rule To4_length)
  have le4: "length eb = 4" using assms(5) by (rule To4_length)
  have c: "compareIP sb eb \<le> 0"
    using le ls le4 by (simp add: compareIP_ipVal)
  have "unat (rangeCount sb eb) \<le> 1000000"
    using cnt by (simp add: unat_rangeCount [OF le nomax])
  then have g: "rangeCount sb eb \<le> 1000000"
    by (simp add: word_le_nat_alt)
  have "unat (ipVal sb) + (unat (ipVal eb) - unat (ipVal sb) + 1) = unat (ipVal eb) + 1"
    using le by (simp add: word_le_nat_alt)
  from rangeLoop_addr [OF nomax this, of "[]"]
  have "rangeLoop sb eb [] = Some (map (\<lambda>k. addrString (ipVal sb + of_nat k))
       [0 ..< unat (ipVal eb) - unat (ipVal sb) + 1])"
    by (simp add: addrBytes_ipVal ls le4)
  then show ?thesis
    using assms(1-5) c g ls
    by (simp add: parseIPRange_def To4Opt_def copy4_id not_less [symmetric])
qed

lemma parseIPRange_start_after_end:
  assumes "Split line CHR ''-'' = [p, q]"
    and "ParseIP (TrimSpace p) = Some ip0" and "ParseIP (TrimSpace q) = Some ip1"
    and "To4 ip0 = Some sb" and "To4 ip1 = Some eb"
    and gt: "ipVal sb > ipVal eb"
  shows "parseIPRange ParseIP line = Some (Inl ErrStartAfterEnd)"
proof -
  have ls: "length sb = 4" using assms(4) by (rule To4_length)
  have le4: "length eb = 4" using assms(5) by (rule To4_length)
  have "\<not> ipVal sb \<le> ipVal eb"
    using gt by (simp add: not_le)
  then have c: "compareIP sb eb > 0"
    using ls le4 by (simp add: compareIP_ipVal [symmetric])
  then show ?thesis
    using assms(1-5) by (simp add: parseIPRange_def To4Opt_def)
qed


subsection \<open>CIDR blocks\<close>

lemma upto32_cases:
  assumes "n \<le> 32" and "list_all P [0 ..< 33]"
  shows "P n"
proof -
  have "n \<in> set [0 ..< 33]" using assms(1) by simp
  with assms(2) show ?thesis unfolding list_all_iff by blast
qed

lemma Size_CIDRMask: "n \<le> 32 \<Longrightarrow> Size (CIDRMask 4 n) = (int n, 32)"
proof (erule upto32_cases)
  show "list_all (\<lambda>n. Size (CIDRMask 4 n) = (int n, 32)) [0 ..< 33]"
    by code_simp
qed

lemma cidrTotal_guard: "n \<le> 32 \<Longrightarrow> (cidrTotal (int n) > 1000000) = (n \<le> 12)"
proof (erule upto32_cases)
  show "list_all (\<lambda>n. (cidrTotal (int n) > 1000000) = (n \<le> 12)) [0 ..< 33]"
    by code_simp
qed

lemma ipVal_CIDRMask: "n \<le> 32 \<Longrightarrow> ipVal (CIDRMask 4 n) = NOT (mask (32 - n))"
proof (erule upto32_cases)
  show "list_all (\<lambda>n. ipVal (CIDRMask 4 n) = NOT (mask (32 - n))) [0 ..< 33]"
    by code_simp
qed

lemma length_CIDRMask: "length (CIDRMask l n) = l"
  by (induction l n rule: CIDRMask.induct) auto

lemma addrBytes_and:
  "addrBytes (v AND w) = map (\<lambda>(a, m). a AND m) (zip (addrBytes v) (addrBytes w))"
proof -
  have "ucast (drop_bit n (v AND w)) = (ucast (drop_bit n v) :: byte) AND ucast (drop_bit n w)" for n
    by (rule bit_word_eqI) (simp add: bit_simps)
  from this [of 24] this [of 16] this [of 8] this [of 0]
  show ?thesis by (simp add: addrBytes_def)
qed

lemma ipVal_and4:
  "ipVal [a AND m0, b AND m1, c AND m2, d AND m3] = ipVal [a, b, c, d] AND ipVal [m0, m1, m2, m3]"
proof -
  have "ipVal [a, b, c, d] AND ipVal [m0, m1, m2, m3]
      = ipVal (addrBytes (ipVal [a, b, c, d] AND ipVal [m0, m1, m2, m3]))"
    by (simp only: ipVal_addrBytes)
  also have "\<dots> = ipVal [a AND m0, b AND m1, c AND m2, d AND m3]"
    by (simp add: addrBytes_and addrBytes_ipVal4)
  finally show ?thesis by simp
qed

lemma ipVal_inj4: "ipVal [a, b, c, d] = ipVal [e, f, g, h] \<Longrightarrow> [a, b, c, d] = [e, f, g, h]"
  by (metis addrBytes_ipVal4)

lemma ipVal_map2_and:
  "length x = 4 \<Longrightarrow> length m = 4 \<Longrightarrow> ipVal (map (\<lambda>(a, m). a AND m) (zip x m)) = ipVal x AND ipVal m"
  by (elim length4E) (simp add: ipVal_and4)

lemma ContainsIP4:
  assumes "length nb = 4" and "length m = 4" and "length cur = 4"
  shows "ContainsIP \<lparr>IP = nb, Mask = m\<rparr> cur = (ipVal nb AND ipVal m = ipVal cur AND ipVal m)"
proof -
  obtain a b c d where nb: "nb = [a, b, c, d]" using assms(1) by (rule length4E)
  obtain m0 m1 m2 m3 where m: "m = [m0, m1, m2, m3]" using assms(2) by (rule length4E)
  obtain e f g h where cur: "cur = [e, f, g, h]" using assms(3) by (rule length4E)
  have "ContainsIP \<lparr>IP = nb, Mask = m\<rparr> cur
      = ([a AND m0, b AND m1, c AND m2, d AND m3] = [e AND m0, f AND m1, g AND m2, h AND m3])"
    by (simp add: ContainsIP_def networkNumberAndMask_def To4_def nb m cur)
  also have "\<dots> = (ipVal [a AND m0, b AND m1, c AND m2, d AND m3]
      = ipVal [e AND m0, f AND m1, g AND m2, h AND m3])"
    by (auto dest: ipVal_inj4)
  finally show ?thesis by (simp add: ipVal_and4 nb m cur)
qed

lemma To4_MaskIP:
  assumes "To4 ip = Some bs" and "length m = 4"
  shows "MaskIP ip m = Some (map (\<lambda>(a, m). a AND m) (zip bs m))"
proof (cases "length ip = 4")
  case True
  with assms show ?thesis by (simp add: MaskIP_def To4_def)
next
  case False
  with assms(1) have l: "length ip = 16" and z: "take 10 ip = replicate 10 0"
    and a: "ip ! 10 = 0xff" and b: "ip ! 11 = 0xff" and bs: "bs = drop 12 ip"
    by (auto simp add: To4_def split: if_splits)
  have "take 12 ip = take 10 ip @ [ip ! 10, ip ! 11]"
    using l by (simp add: take_Suc_conv_app_nth numeral_eq_Suc)
  then have "take 12 ip = v4InV6Prefix"
    by (simp add: z a b v4InV6Prefix_def)
  then show ?thesis
    using assms(2) l bs by (simp add: MaskIP_def)
qed

lemma aligned_bit: "take_bit k (w :: 32 word) = 0 \<Longrightarrow> bit w i \<Longrightarrow> k \<le> i"
proof (rule ccontr)
  assume z: "take_bit k w = 0" and b: "bit w i" and n: "\<not> k \<le> i"
  from b n have "bit (take_bit k w) i" by (simp add: bit_take_bit_iff)
  with z show False by simp
qed

lemma low_bit: "j < 2 ^ k \<Longrightarrow> bit (of_nat j :: 32 word) i \<Longrightarrow> i < k"
proof -
  assume j: "j < 2 ^ k" and b: "bit (of_nat j :: 32 word) i"
  have "take_bit k (of_nat j :: 32 word) = of_nat (take_bit k j)"
    by (simp add: take_bit_of_nat)
  also have "take_bit k j = j" using j by (simp add: take_bit_eq_mod)
  finally have "bit (take_bit k (of_nat j :: 32 word)) i" using b by simp
  then show ?thesis by (simp add: bit_take_bit_iff)
qed

lemma contains_low:
  assumes "take_bit k (net :: 32 word) = 0" and "j < 2 ^ k"
  shows "(net + of_nat j) AND NOT (mask k) = net"
proof -
  have "net + of_nat j = net OR of_nat j"
  proof (rule disjunctive_add)
    fix n
    show "\<not> bit net n \<or> \<not> bit (of_nat j :: 32 word) n"
      using aligned_bit [OF assms(1), of n] low_bit [OF assms(2), of n] by auto
  qed
  moreover have "(net OR of_nat j) AND NOT (mask k) = net"
  proof (rule bit_word_eqI)
    fix n
    assume "n < LENGTH(32)"
    then show "bit ((net OR of_nat j) AND NOT (mask k)) n = bit net n"
      using aligned_bit [OF assms(1), of n] low_bit [OF assms(2), of n]
      by (auto simp add: bit_and_iff bit_or_iff bit_not_iff bit_mask_iff)
  qed
  ultimately show ?thesis by simp
qed

lemma contains_next:
  assumes "take_bit k (net :: 32 word) = 0" and "k < 32"
  shows "(net + of_nat (2 ^ k)) AND NOT (mask k) \<noteq> net"
proof -
  have "unat (take_bit k net) = take_bit k (unat net)"
    by (rule unsigned_take_bit_eq)
  then have m: "unat net mod 2 ^ k = 0"
    using assms(1) by (simp add: take_bit_eq_mod)
  have d: "(2::nat) ^ k dvd 2 ^ 32"
    using assms(2) by (intro le_imp_power_dvd) simp
  have lt: "(2::nat) ^ k < 2 ^ 32"
    using assms(2) by (intro power_strict_increasing) auto
  then have p: "unat (of_nat (2 ^ k) :: 32 word) = 2 ^ k"
    by (simp only: unat_of_nat) simp
  have "unat (take_bit k (net + of_nat (2 ^ k))) = take_bit k (unat (net + of_nat (2 ^ k)))"
    by (rule unsigned_take_bit_eq)
  also have "\<dots> = ((unat net + 2 ^ k) mod 2 ^ 32) mod 2 ^ k"
    by (simp only: take_bit_eq_mod unat_word_ariths p) simp
  also have "\<dots> = (unat net + 2 ^ k) mod 2 ^ k"
    using d by (rule mod_mod_cancel)
  also have "\<dots> = 0" using m by simp
  finally have al: "take_bit k (net + of_nat (2 ^ k)) = 0"
    by (simp only: word_unat_eq_iff) simp
  have "(net + of_nat (2 ^ k)) AND NOT (mask k) = net + of_nat (2 ^ k)"
  proof (rule bit_word_eqI)
    fix n
    assume "n < LENGTH(32)"
    then show "bit ((net + of_nat (2 ^ k)) AND NOT (mask k)) n = bit (net + of_nat (2 ^ k)) n"
      using aligned_bit [OF al, of n]
      by (auto simp add: bit_and_iff bit_not_iff bit_mask_iff)
  qed
  moreover have "(of_nat (2 ^ k) :: 32 word) \<noteq> 0"
    using p lt by (metis power_not_zero unsigned_0 zero_neq_numeral)
  ultimately show ?thesis by simp
qed

lemma take_bit_and_not_mask: "take_bit k ((x :: 32 word) AND NOT (mask k)) = 0"
  by (rule bit_word_eqI) (auto simp add: bit_take_bit_iff bit_and_iff bit_not_iff bit_mask_iff)

lemma cidrLoop_addr:
  assumes n: "1 \<le> n" "n \<le> 32" and al: "take_bit (32 - n) net = 0"
  shows "j \<le> 2 ^ (32 - n) \<Longrightarrow>
     cidrLoop \<lparr>IP = addrBytes net, Mask = CIDRMask 4 n\<rparr> (addrBytes (net + of_nat j)) acc
       = Some (acc @ map (\<lambda>i. addrString (net + of_nat i)) [j ..< 2 ^ (32 - n)])"
proof (induction "2 ^ (32 - n) - j" arbitrary: j acc)
  case 0
  then have j: "j = 2 ^ (32 - n)" by simp
  have k: "32 - n < 32" using n by simp
  have self: "net AND NOT (mask (32 - n)) = net"
    using contains_low [OF al, of 0] by simp
  have "(net + of_nat j) AND NOT (mask (32 - n)) \<noteq> net"
    unfolding j by (rule contains_next [OF al k])
  then have "net \<noteq> (net + of_nat j) AND NOT (mask (32 - n))"
    by (rule not_sym)
  then have "\<not> ContainsIP \<lparr>IP = addrBytes net, Mask = CIDRMask 4 n\<rparr> (addrBytes (net + of_nat j))"
    by (simp add: ContainsIP4 length_addrBytes length_CIDRMask ipVal_addrBytes
        ipVal_CIDRMask [OF n(2)] self)
  then show ?case
    by (subst cidrLoop.simps) (simp add: j)
next
  case (Suc d)
  then have j: "j < 2 ^ (32 - n)" by simp
  have self: "net AND NOT (mask (32 - n)) = net"
    using contains_low [OF al, of 0] by simp
  have c: "ContainsIP \<lparr>IP = addrBytes net, Mask = CIDRMask 4 n\<rparr> (addrBytes (net + of_nat j))"
    by (simp add: ContainsIP4 length_addrBytes length_CIDRMask ipVal_addrBytes
        ipVal_CIDRMask [OF n(2)] self contains_low [OF al j])
  have "d = 2 ^ (32 - n) - Suc j" using Suc.hyps(2) by simp
  moreover have "Suc j \<le> 2 ^ (32 - n)" using j by simp
  ultimately have IH: "cidrLoop \<lparr>IP = addrBytes net, Mask = CIDRMask 4 n\<rparr>
        (addrBytes (net + of_nat (Suc j))) (acc @ [addrString (net + of_nat j)])
      = Some ((acc @ [addrString (net + of_nat j)])
          @ map (\<lambda>i. addrString (net + of_nat i)) [Suc j ..< 2 ^ (32 - n)])"
    by (rule Suc.hyps(1))
  have "[j ..< 2 ^ (32 - n)] = j # [Suc j ..< 2 ^ (32 - n)]"
    using j by (rule upt_conv_Cons)
  with IH c show ?case
    by (subst cidrLoop.simps) (simp add: incIP_addrBytes addrString_def ac_simps)
qed

lemma aligned_no_wrap:
  assumes "take_bit k (net :: 32 word) = 0" and "k \<le> 32"
  shows "unat net + 2 ^ k \<le> 2 ^ 32"
proof -
  have "unat (take_bit k net) = take_bit k (unat net)"
    by (rule unsigned_take_bit_eq)
  then have "unat net mod 2 ^ k = 0"
    using assms(1) by (simp add: take_bit_eq_mod)
  then have d1: "2 ^ k dvd unat net" by (simp add: dvd_eq_mod_eq_0)
  have d2: "(2::nat) ^ k dvd 2 ^ 32"
    using assms(2) by (intro le_imp_power_dvd) simp
  have lt: "unat net < 2 ^ 32"
    using unsigned_less [of net, where 'a = nat] by simp
  from d1 d2 have "2 ^ k dvd 2 ^ 32 - unat net" by (rule dvd_diff_nat [rotated])
  moreover have "0 < 2 ^ 32 - unat net" using lt by simp
  ultimately have "2 ^ k \<le> 2 ^ 32 - unat net" by (rule dvd_imp_le)
  then show ?thesis using lt by simp
qed

lemma unat_addressesFrom:
  assumes "take_bit k (net :: 32 word) = 0" and "k \<le> 32" and "i < 2 ^ k"
  shows "unat (net + of_nat i) = unat net + i"
proof -
  have "unat net + i < 2 ^ 32"
    using aligned_no_wrap [OF assms(1,2)] assms(3) by simp
  then show ?thesis
    by (simp add: unat_word_ariths unat_of_nat)
qed

lemma parseCIDR_expands:
  assumes p: "ParseCIDR line = Some (ip, ipNet)"
    and v4: "To4 ip = Some bs"
    and n: "13 \<le> n" "n \<le> 32"
    and m: "Mask ipNet = CIDRMask 4 n"
    and nw: "MaskIP ip (CIDRMask 4 n) = Some (IP ipNet)"
  shows "parseCIDR ParseCIDR line =
     Some (Inr (map addrString (addressesFrom (networkAddress bs n) (2 ^ (32 - n)))))"
proof -
  let ?net = "networkAddress bs n"
  have lb: "length bs = 4" using v4 by (rule To4_length)
  have ipn: "IP ipNet = map (\<lambda>(a, m). a AND m) (zip bs (CIDRMask 4 n))"
    using To4_MaskIP [OF v4, of "CIDRMask 4 n"] nw by (simp add: length_CIDRMask)
  then have ln: "length (IP ipNet) = 4" by (simp add: lb length_CIDRMask)
  have "ipVal (IP ipNet) = ?net"
    by (simp add: ipn ipVal_map2_and lb length_CIDRMask ipVal_CIDRMask [OF n(2)]
        networkAddress_def)
  then have ab: "addrBytes ?net = IP ipNet"
    using addrBytes_ipVal [OF ln] by simp
  have rec: "ipNet = \<lparr>IP = addrBytes ?net, Mask = CIDRMask 4 n\<rparr>"
    by (simp add: ab m)
  have al: "take_bit (32 - n) ?net = 0"
    unfolding networkAddress_def by (rule take_bit_and_not_mask)
  have "cidrLoop \<lparr>IP = addrBytes ?net, Mask = CIDRMask 4 n\<rparr> (addrBytes (?net + of_nat 0)) []
      = Some ([] @ map (\<lambda>i. addrString (?net + of_nat i)) [0 ..< 2 ^ (32 - n)])"
    by (rule cidrLoop_addr) (use n al in simp_all)
  then have "cidrLoop ipNet (addrBytes (?net + of_nat 0)) []
      = Some ([] @ map (\<lambda>i. addrString (?net + of_nat i)) [0 ..< 2 ^ (32 - n)])"
    by (simp only: rec [symmetric])
  then have loop: "cidrLoop ipNet (IP ipNet) []
      = Some (map addrString (addressesFrom ?net (2 ^ (32 - n))))"
    by (simp add: ab addressesFrom_def comp_def)
  have tot: "\<not> cidrTotal (int n) > 1000000"
    using n by (simp add: cidrTotal_guard)
  have sz: "Size (Mask ipNet) = (int n, 32)"
    by (simp add: m Size_CIDRMask n(2))
  have mk: "To4Opt (MaskIP ip (Mask ipNet)) = Some (IP ipNet)"
    using nw ln by (simp add: m To4Opt_def To4_def)
  show ?thesis
    unfolding parseCIDR_def by (simp add: p v4 sz tot mk copy4_id ln loop)
qed

lemma parseCIDR_too_large:
  assumes p: "ParseCIDR line = Some (ip, ipNet)"
    and v4: "To4 ip = Some bs"
    and n: "n \<le> 12"
    and m: "Mask ipNet = CIDRMask 4 n"
  shows "parseCIDR ParseCIDR line = Some (Inl ErrCIDRTooLarge)"
  using assms by (simp add: parseCIDR_def Size_CIDRMask cidrTotal_guard)

subsection \<open>The printed addresses are distinct\<close>

lemma Split_no_sep: "sep \<notin> set x \<Longrightarrow> Split x sep = [x]"
  by (induction x) auto

lemma Split_append: "sep \<notin> set x \<Longrightarrow> Split (x @ sep # rest) sep = x # Split rest sep"
  by (induction x) auto

lemma decimal_digits: "c \<in> set (decimal n) \<Longrightarrow> isDigit c"
proof (induction n arbitrary: c rule: decimal.induct)
  case (1 n)
  show ?case
  proof (cases "n < 10")
    case True
    with "1.prems" have "c = char_of (48 + n)"
      by (subst (asm) decimal.simps) simp
    with True show ?thesis by (simp add: isDigit_def)
  next
    case False
    with "1.prems" have "c \<in> set (decimal (n div 10)) \<or> c = char_of (48 + n mod 10)"
      by (subst (asm) decimal.simps) auto
    then show ?thesis
    proof
      assume "c \<in> set (decimal (n div 10))"
      with False show ?thesis using "1.IH" by blast
    next
      assume c: "c = char_of (48 + n mod 10)"
      have "n mod 10 < 10" by simp
      then have "48 + n mod 10 < 256" by simp
      then have "of_char c = 48 + n mod 10"
        by (simp add: c)
      then show ?thesis by (simp add: isDigit_def)
    qed
  qed
qed

lemma decimal_no_dot: "CHR ''.'' \<notin> set (decimal n)"
  using decimal_digits [of "CHR ''.''" n] by (auto simp add: isDigit_def)

lemma digitsVal_snoc: "digitsVal (xs @ [c]) acc = digitsVal xs acc * 10 + ((of_char c :: nat) - 48)"
  by (induction xs arbitrary: acc) auto

lemma digitsVal_decimal: "digitsVal (decimal n) 0 = n"
proof (induction n rule: decimal.induct)
  case (1 n)
  show ?case
  proof (cases "n < 10")
    case True
    then show ?thesis by (subst decimal.simps) simp
  next
    case False
    have "n mod 10 < 10" by simp
    then have "48 + n mod 10 < 256" by simp
    then have "(of_char (char_of (48 + n mod 10)) :: nat) = 48 + n mod 10"
      by simp
    with False "1.IH" show ?thesis
      by (subst decimal.simps) (simp add: digitsVal_snoc)
  qed
qed

lemma decimal_inj: "decimal m = decimal n \<Longrightarrow> m = n"
  by (metis digitsVal_decimal)




lemma Split_IPv4String:
  "Split (IPv4String a b c d) CHR ''.''
      = [decimal (unat a), decimal (unat b), decimal (unat c), decimal (unat d)]"
  by (simp add: IPv4String_def Split_append Split_no_sep decimal_no_dot)

lemma IPv4String_inj:
  assumes "IPv4String a b c d = IPv4String a' b' c' d'"
  shows "[a, b, c, d] = [a', b', c', d']"
proof -
  from assms have "Split (IPv4String a b c d) CHR ''.'' = Split (IPv4String a' b' c' d') CHR ''.''"
    by simp
  then have "unat a = unat a' \<and> unat b = unat b' \<and> unat c = unat c' \<and> unat d = unat d'"
    by (auto simp add: Split_IPv4String dest: decimal_inj)
  then show ?thesis by (simp add: word_unat_eq_iff)
qed

lemma addrString_inj: "addrString v = addrString w \<Longrightarrow> v = w"
proof -
  assume e: "addrString v = addrString w"
  obtain a b c d where v: "addrBytes v = [a, b, c, d]" by (simp add: addrBytes_def)
  obtain a' b' c' d' where w: "addrBytes w = [a', b', c', d']" by (simp add: addrBytes_def)
  from e have "IPv4String a b c d = IPv4String a' b' c' d'"
    by (simp add: addrString_def currentString_def v w)
  then have "addrBytes v = addrBytes w"
    using IPv4String_inj by (simp add: v w)
  then have "ipVal (addrBytes v) = ipVal (addrBytes w)" by simp
  then show "v = w" by (simp only: ipVal_addrBytes)
qed




lemma sorted_addressesFrom:
  assumes "unat w + cnt \<le> 2 ^ 32"
  shows "sorted_wrt (<) (addressesFrom w cnt)"
proof -
  have u: "unat (w + of_nat i) = unat w + i" if "i < cnt" for i
    using that assms by (simp add: unat_word_ariths unat_of_nat)
  have "sorted_wrt (\<lambda>i j. w + of_nat i < w + of_nat j) [0 ..< cnt]"
  proof (rule sorted_wrt_mono_rel [of _ "(<)"])
    show "sorted_wrt (<) [0 ..< cnt]" by (simp add: sorted_wrt_upt)
  next
    fix i j
    assume "i \<in> set [0 ..< cnt]" "j \<in> set [0 ..< cnt]" "i < j"
    then show "w + of_nat i < w + of_nat j"
      by (simp add: word_less_nat_alt u)
  qed
  then show ?thesis
    by (simp add: addressesFrom_def sorted_wrt_map)
qed

lemma distinct_addressesFrom:
  "unat w + cnt \<le> 2 ^ 32 \<Longrightarrow> distinct (map addrString (addressesFrom w cnt))"
proof -
  assume "unat w + cnt \<le> 2 ^ 32"
  then have "sorted_wrt (<) (addressesFrom w cnt)" by (rule sorted_addressesFrom)
  then have "distinct (addressesFrom w cnt)"
    by (simp add: strict_sorted_iff)
  moreover have "inj_on addrString (set (addressesFrom w cnt))"
    by (rule inj_onI) (rule addrString_inj)
  ultimately show ?thesis by (simp add: distinct_map)
qed


lemma hd_addressesFrom: "0 < cnt \<Longrightarrow> hd (addressesFrom w cnt) = w"
  by (simp add: addressesFrom_def upt_conv_Cons hd_map)

lemma last_addressesFrom: "0 < cnt \<Longrightarrow> last (addressesFrom w cnt) = w + of_nat (cnt - 1)"
  by (cases cnt) (simp_all add: addressesFrom_def)

lemma broadcast_address:
  assumes "take_bit k (net :: 32 word) = 0"
  shows "net + of_nat (2 ^ k - 1) = net OR mask k"
proof -
  have "(of_nat (2 ^ k - 1) :: 32 word) = mask k"
    by (simp add: mask_eq_exp_minus_1 of_nat_diff)
  moreover have "net + mask k = net OR mask k"
  proof (rule disjunctive_add)
    fix n
    show "\<not> bit net n \<or> \<not> bit (mask k :: 32 word) n"
      using aligned_bit [OF assms, of n] by (auto simp add: bit_mask_iff)
  qed
  ultimately show ?thesis by simp
qed

subsection \<open>The claims about the expander\<close>

text \<open>
  Claim C1: every range line whose endpoints parse as IPv4 addresses, with start not
  above end and at most 1,000,000 addresses, expands to exactly the addresses from
  start to end. For ranges that do not end at 255.255.255.255 this is
  \<open>parseIPRange_expands\<close>. For a range that ends at 255.255.255.255 the code does not
  return: after the last address \<open>incIP\<close> wraps to 0.0.0.0, which \<open>compareIP\<close> finds
  below the end again, so the loop goes on appending (in Go, until memory runs out).
  The theorem evaluates the code at the line \<open>255.255.255.254-255.255.255.255\<close>, a range
  of two addresses.
\<close>

theorem C1_range_ending_at_max_never_returns:
  "parseIPRange dottedParseIP ''255.255.255.254-255.255.255.255'' = None"
proof (rule parseIPRange_max_end)
  show "Split ''255.255.255.254-255.255.255.255'' CHR ''-'' = [''255.255.255.254'', ''255.255.255.255'']"
    by code_simp
  show "dottedParseIP (TrimSpace ''255.255.255.254'') = Some (v4InV6Prefix @ [255, 255, 255, 254])"
    by code_simp
  show "dottedParseIP (TrimSpace ''255.255.255.255'') = Some (v4InV6Prefix @ [255, 255, 255, 255])"
    by code_simp
  show "To4 (v4InV6Prefix @ [255, 255, 255, 254]) = Some [255, 255, 255, 254]"
    by code_simp
  show "To4 (v4InV6Prefix @ [255, 255, 255, 255]) = Some [255, 255, 255, 255]"
    by code_simp
  show "rangeCount [255, 255, 255, 254] [255, 255, 255, 255] \<le> 1000000"
    by code_simp
qed

text \<open>
  Claim C2: the enumeration loop of \<open>parseIPRange\<close> terminates for every range that
  passes the checks, in particular for ranges whose end is 255.255.255.255. The code
  does the opposite there: from every 4-byte start, the loop with end 255.255.255.255
  never returns, because no 4-byte address compares above that end.
\<close>

theorem C2_loop_never_returns_at_max_end:
  "length current = 4 \<Longrightarrow> rangeLoop current [255, 255, 255, 255] ips = None"
  by (rule rangeLoop_None_max_end)

theorem C2_loop_never_returns_at_max_end_witness:
  "length [255, 255, 255, 255 :: byte] = 4
   \<and> rangeLoop [255, 255, 255, 255] [255, 255, 255, 255] [] = None"
  using C2_loop_never_returns_at_max_end [of "[255, 255, 255, 255]" "[]"] by simp

text \<open>
  Claim C5, as stated: every valid CIDR line \<open>A/N\<close> with \<open>0 \<le> N \<le> 32\<close> expands to
  \<open>2^(32-N)\<close> addresses. This fails for every \<open>N \<le> 12\<close>, where the block has more
  than 1,000,000 addresses and the guard of \<open>parseCIDR\<close> rejects it
  (\<open>parseCIDR_too_large\<close>); the line \<open>10.0.0.0/8\<close> is one such.
\<close>

theorem C5_cidr_too_large_counterexample:
  "parseCIDR dottedParseCIDR ''10.0.0.0/8'' = Some (Inl ErrCIDRTooLarge)"
  by code_simp


text \<open>
  Claim C5, amended: for every CIDR line \<open>A/N\<close> that \<open>net.ParseCIDR\<close> accepts, with an
  IPv4 address \<open>A\<close> and \<open>13 \<le> N \<le> 32\<close>, the expansion returns the texts of exactly
  \<open>2^(32-N)\<close> addresses, strictly ascending as 32-bit values, pairwise distinct as
  texts, the first the network address (\<open>A\<close> with the mask applied) and the last the
  broadcast address (the network address with the low \<open>32-N\<close> bits set).
\<close>

theorem C5_cidr_expansion:
  assumes "ParseCIDR line = Some (ip, ipNet)"
    and "To4 ip = Some bs"
    and "13 \<le> n" and "n \<le> 32"
    and "Mask ipNet = CIDRMask 4 n"
    and "MaskIP ip (CIDRMask 4 n) = Some (IP ipNet)"
  shows "parseCIDR ParseCIDR line
       = Some (Inr (map addrString (addressesFrom (networkAddress bs n) (2 ^ (32 - n)))))
     \<and> length (addressesFrom (networkAddress bs n) (2 ^ (32 - n))) = 2 ^ (32 - n)
     \<and> sorted_wrt (<) (addressesFrom (networkAddress bs n) (2 ^ (32 - n)))
     \<and> distinct (map addrString (addressesFrom (networkAddress bs n) (2 ^ (32 - n))))
     \<and> hd (addressesFrom (networkAddress bs n) (2 ^ (32 - n))) = networkAddress bs n
     \<and> last (addressesFrom (networkAddress bs n) (2 ^ (32 - n)))
         = networkAddress bs n OR mask (32 - n)"
proof -
  let ?net = "networkAddress bs n"
  have al: "take_bit (32 - n) ?net = 0"
    unfolding networkAddress_def by (rule take_bit_and_not_mask)
  have nw: "unat ?net + 2 ^ (32 - n) \<le> 2 ^ 32"
    by (rule aligned_no_wrap [OF al]) simp
  have 1: "parseCIDR ParseCIDR line
       = Some (Inr (map addrString (addressesFrom ?net (2 ^ (32 - n)))))"
    using assms by (rule parseCIDR_expands)
  have 2: "length (addressesFrom ?net (2 ^ (32 - n))) = 2 ^ (32 - n)"
    by (simp add: addressesFrom_def)
  have 3: "sorted_wrt (<) (addressesFrom ?net (2 ^ (32 - n)))"
    using nw by (rule sorted_addressesFrom)
  have 4: "distinct (map addrString (addressesFrom ?net (2 ^ (32 - n))))"
    using nw by (rule distinct_addressesFrom)
  have 5: "hd (addressesFrom ?net (2 ^ (32 - n))) = ?net"
    by (rule hd_addressesFrom) simp
  have "last (addressesFrom ?net (2 ^ (32 - n))) = ?net + of_nat (2 ^ (32 - n) - 1)"
    by (rule last_addressesFrom) simp
  then have 6: "last (addressesFrom ?net (2 ^ (32 - n))) = ?net OR mask (32 - n)"
    by (simp only: broadcast_address [OF al])
  from 1 2 3 4 5 6 show ?thesis by blast
qed

theorem C5_cidr_expansion_witness:
  "dottedParseCIDR ''192.168.18.129/30''
     = Some (v4InV6Prefix @ [192, 168, 18, 129],
             \<lparr>IP = [192, 168, 18, 128], Mask = [255, 255, 255, 252]\<rparr>)
   \<and> parseCIDR dottedParseCIDR ''192.168.18.129/30''
     = Some (Inr [''192.168.18.128'', ''192.168.18.129'', ''192.168.18.130'', ''192.168.18.131''])"
proof -
  have p: "dottedParseCIDR ''192.168.18.129/30''
     = Some (v4InV6Prefix @ [192, 168, 18, 129],
             \<lparr>IP = [192, 168, 18, 128], Mask = [255, 255, 255, 252]\<rparr>)"
    by code_simp
  have v4: "To4 (v4InV6Prefix @ [192, 168, 18, 129]) = Some [192, 168, 18, 129]"
    by code_simp
  have n: "(13::nat) \<le> 30" "(30::nat) \<le> 32" by simp_all
  have m: "Mask \<lparr>IP = [192, 168, 18, 128], Mask = [255, 255, 255, 252]\<rparr> = CIDRMask 4 30"
    by code_simp
  have nw: "MaskIP (v4InV6Prefix @ [192, 168, 18, 129]) (CIDRMask 4 30)
      = Some (IP \<lparr>IP = [192, 168, 18, 128], Mask = [255, 255, 255, 252]\<rparr>)"
    by code_simp
  have l: "map addrString (addressesFrom (networkAddress [192, 168, 18, 129] 30) (2 ^ (32 - 30)))
      = [''192.168.18.128'', ''192.168.18.129'', ''192.168.18.130'', ''192.168.18.131'']"
    by code_simp
  show ?thesis
    using C5_cidr_expansion [where ParseCIDR = dottedParseCIDR and line = "''192.168.18.129/30''",
        OF p v4 n m nw] p l
    by simp
qed


text \<open>
  Claim C6: a range whose start exceeds its end fails with \<open>InconsistentRange\<close>
  (\<open>parseIPRange_start_after_end\<close>), and every range or CIDR line with more than
  1,000,000 addresses fails with \<open>RangeTooLarge\<close> (for CIDR lines, \<open>parseCIDR_too_large\<close>).
  For the range \<open>0.0.0.0-255.255.255.255\<close> the code misses its own guard: the count
  \<open>end - start + 1\<close> is computed in 32 bits and wraps from \<open>2^32\<close> to 0 before it is
  widened, so the guard passes, and the enumeration then never returns.
\<close>

theorem C6_full_range_passes_the_guard:
  "rangeCount [0, 0, 0, 0] [255, 255, 255, 255] = 0
   \<and> parseIPRange dottedParseIP ''0.0.0.0-255.255.255.255'' = None"
proof
  show "rangeCount [0, 0, 0, 0] [255, 255, 255, 255] = 0"
    by code_simp
  show "parseIPRange dottedParseIP ''0.0.0.0-255.255.255.255'' = None"
  proof (rule parseIPRange_max_end)
    show "Split ''0.0.0.0-255.255.255.255'' CHR ''-'' = [''0.0.0.0'', ''255.255.255.255'']"
      by code_simp
    show "dottedParseIP (TrimSpace ''0.0.0.0'') = Some (v4InV6Prefix @ [0, 0, 0, 0])"
      by code_simp
    show "dottedParseIP (TrimSpace ''255.255.255.255'')
        = Some (v4InV6Prefix @ [255, 255, 255, 255])"
      by code_simp
    show "To4 (v4InV6Prefix @ [0, 0, 0, 0]) = Some [0, 0, 0, 0]"
      by code_simp
    show "To4 (v4InV6Prefix @ [255, 255, 255, 255]) = Some [255, 255, 255, 255]"
      by code_simp
    show "rangeCount [0, 0, 0, 0] [255, 255, 255, 255] \<le> 1000000"
      by code_simp
  qed
qed

section \<open>Properties of the probe orchestrator\<close>

lemma filter_length_update:
  "k < length ws \<Longrightarrow>
     length (filter P (ws[k := w'])) + (if P (ws ! k) then 1 else 0)
       = length (filter P ws) + (if P w' then 1 else 0)"
proof (induction ws arbitrary: k)
  case Nil
  then show ?case by simp
next
  case (Cons w ws)
  show ?case
  proof (cases k)
    case 0
    then show ?thesis by simp
  next
    case (Suc j)
    with Cons.prems have "j < length ws" by simp
    from Cons.IH [OF this] Suc show ?thesis by simp
  qed
qed

lemma filter_length_mono:
  "(\<And>x. P x \<Longrightarrow> Q x) \<Longrightarrow> length (filter P xs) \<le> length (filter Q xs)"
  by (induction xs) auto

text \<open>The steps, case by case.\<close>

lemma mainStep_disj:
  assumes "mainStep s = Some s'"
  shows "(mainPc s = MAdd \<and> s' = s\<lparr>wg := wg s + 1, mainPc := MAcquire\<rparr>)
    \<or> (mainPc s = MAcquire \<and> semaphore s < slots s \<and> s' = s\<lparr>semaphore := semaphore s + 1, mainPc := MSpawn\<rparr>)
    \<or> (mainPc s = MSpawn \<and>
        s' = s\<lparr>workers := workers s @ [\<lparr>wid = idx s, wip = inputIPs s ! idx s, wpc = WRun\<rparr>],
               idx := idx s + 1,
               mainPc := (if idx s + 1 < length (inputIPs s) then MAdd else MStartCloser)\<rparr>)
    \<or> (mainPc s = MStartCloser \<and> s' = s\<lparr>closer := CWait, mainPc := MCollect\<rparr>)
    \<or> (\<exists>ip rest. mainPc s = MCollect \<and> resultChan s = (ip, True) # rest
          \<and> s' = s\<lparr>resultChan := rest, successIPs := successIPs s @ [ip]\<rparr>)
    \<or> (\<exists>ip rest. mainPc s = MCollect \<and> resultChan s = (ip, False) # rest
          \<and> s' = s\<lparr>resultChan := rest, failedIPs := failedIPs s @ [ip]\<rparr>)
    \<or> (mainPc s = MCollect \<and> resultChan s = [] \<and> resultChanClosed s
          \<and> s' = s\<lparr>mainPc := MReturned, semaphoreClosed := True\<rparr>)"
proof (cases "mainPc s")
  case MCollect
  show ?thesis
  proof (cases "resultChan s")
    case Nil
    with MCollect assms show ?thesis
      by (simp add: mainStep_def split: if_splits)
  next
    case (Cons r rest)
    obtain ip ok where r: "r = (ip, ok)" by (cases r)
    with Cons MCollect assms show ?thesis
      by (cases ok) (simp_all add: mainStep_def)
  qed
qed (use assms in \<open>simp_all add: mainStep_def split: if_splits\<close>)

lemma mainStep_cases:
  assumes "mainStep s = Some s'"
  obtains
    (add) "mainPc s = MAdd" "s' = s\<lparr>wg := wg s + 1, mainPc := MAcquire\<rparr>"
  | (acquire) "mainPc s = MAcquire" "semaphore s < slots s" "s' = s\<lparr>semaphore := semaphore s + 1, mainPc := MSpawn\<rparr>"
  | (spawn) "mainPc s = MSpawn"
      "s' = s\<lparr>workers := workers s @ [\<lparr>wid = idx s, wip = inputIPs s ! idx s, wpc = WRun\<rparr>],
              idx := idx s + 1,
              mainPc := (if idx s + 1 < length (inputIPs s) then MAdd else MStartCloser)\<rparr>"
  | (startCloser) "mainPc s = MStartCloser" "s' = s\<lparr>closer := CWait, mainPc := MCollect\<rparr>"
  | (collectOk) ip rest where "mainPc s = MCollect" "resultChan s = (ip, True) # rest"
      "s' = s\<lparr>resultChan := rest, successIPs := successIPs s @ [ip]\<rparr>"
  | (collectFail) ip rest where "mainPc s = MCollect" "resultChan s = (ip, False) # rest"
      "s' = s\<lparr>resultChan := rest, failedIPs := failedIPs s @ [ip]\<rparr>"
  | (ret) "mainPc s = MCollect" "resultChan s = []" "resultChanClosed s"
      "s' = s\<lparr>mainPc := MReturned, semaphoreClosed := True\<rparr>"
  using mainStep_disj [OF assms] by blast

lemma workerStep_disj:
  assumes "workerStep pingRunner k s = Some s'"
  shows "k < length (workers s) \<and>
    ((wpc (workers s ! k) = WRun \<and>
        s' = s\<lparr>workers := (workers s)[k := (workers s ! k)
          \<lparr>wpc := WSend (pingRunner (wid (workers s ! k)) (wip (workers s ! k)))\<rparr>]\<rparr>)
    \<or> (\<exists>ok. wpc (workers s ! k) = WSend ok \<and> resultChanClosed s \<and> s' = s\<lparr>panicked := True\<rparr>)
    \<or> (\<exists>ok. wpc (workers s ! k) = WSend ok \<and> \<not> resultChanClosed s \<and> length (resultChan s) < length (inputIPs s)
          \<and> s' = s\<lparr>resultChan := resultChan s @ [(wip (workers s ! k), ok)],
              workers := (workers s)[k := (workers s ! k)\<lparr>wpc := WRelease\<rparr>]\<rparr>)
    \<or> (wpc (workers s ! k) = WRelease \<and> 0 < semaphore s
          \<and> s' = s\<lparr>semaphore := semaphore s - 1,
                 workers := (workers s)[k := (workers s ! k)\<lparr>wpc := WDone\<rparr>]\<rparr>)
    \<or> (wpc (workers s ! k) = WRelease \<and> semaphore s = 0 \<and> semaphoreClosed s
          \<and> s' = s\<lparr>workers := (workers s)[k := (workers s ! k)\<lparr>wpc := WDone\<rparr>]\<rparr>)
    \<or> (wpc (workers s ! k) = WDone \<and> 1 \<le> wg s
          \<and> s' = s\<lparr>wg := wg s - 1,
                 workers := (workers s)[k := (workers s ! k)\<lparr>wpc := WExit\<rparr>]\<rparr>)
    \<or> (wpc (workers s ! k) = WDone \<and> wg s < 1 \<and> s' = s\<lparr>panicked := True\<rparr>))"
proof -
  from assms have k: "k < length (workers s)"
    by (simp add: workerStep_def split: if_splits)
  show ?thesis
    by (cases "wpc (workers s ! k)")
       (use assms k in \<open>simp_all add: workerStep_def Let_def split: if_splits\<close>)
qed

lemma workerStep_cases:
  assumes "workerStep pingRunner k s = Some s'"
  obtains
    (run) "k < length (workers s)" "wpc (workers s ! k) = WRun"
      "s' = s\<lparr>workers := (workers s)[k := (workers s ! k)
          \<lparr>wpc := WSend (pingRunner (wid (workers s ! k)) (wip (workers s ! k)))\<rparr>]\<rparr>"
  | (sendPanic) ok where "k < length (workers s)" "wpc (workers s ! k) = WSend ok" "resultChanClosed s"
      "s' = s\<lparr>panicked := True\<rparr>"
  | (send) ok where "k < length (workers s)" "wpc (workers s ! k) = WSend ok" "\<not> resultChanClosed s"
      "length (resultChan s) < length (inputIPs s)"
      "s' = s\<lparr>resultChan := resultChan s @ [(wip (workers s ! k), ok)],
              workers := (workers s)[k := (workers s ! k)\<lparr>wpc := WRelease\<rparr>]\<rparr>"
  | (release) "k < length (workers s)" "wpc (workers s ! k) = WRelease" "0 < semaphore s"
      "s' = s\<lparr>semaphore := semaphore s - 1, workers := (workers s)[k := (workers s ! k)\<lparr>wpc := WDone\<rparr>]\<rparr>"
  | (releaseClosed) "k < length (workers s)" "wpc (workers s ! k) = WRelease" "semaphore s = 0"
      "semaphoreClosed s" "s' = s\<lparr>workers := (workers s)[k := (workers s ! k)\<lparr>wpc := WDone\<rparr>]\<rparr>"
  | (fin) "k < length (workers s)" "wpc (workers s ! k) = WDone" "1 \<le> wg s"
      "s' = s\<lparr>wg := wg s - 1, workers := (workers s)[k := (workers s ! k)\<lparr>wpc := WExit\<rparr>]\<rparr>"
  | (donePanic) "k < length (workers s)" "wpc (workers s ! k) = WDone" "wg s < 1"
      "s' = s\<lparr>panicked := True\<rparr>"
proof -
  from workerStep_disj [OF assms] have k: "k < length (workers s)" by (rule conjunct1)
  from workerStep_disj [OF assms] show thesis
  proof (elim conjE disjE exE)
    assume "wpc (workers s ! k) = WRun"
      "s' = s\<lparr>workers := (workers s)[k := (workers s ! k)
          \<lparr>wpc := WSend (pingRunner (wid (workers s ! k)) (wip (workers s ! k)))\<rparr>]\<rparr>"
    with k show thesis by (rule run)
  next
    fix ok
    assume "wpc (workers s ! k) = WSend ok" "resultChanClosed s" "s' = s\<lparr>panicked := True\<rparr>"
    with k show thesis by (rule sendPanic)
  next
    fix ok
    assume "wpc (workers s ! k) = WSend ok" "\<not> resultChanClosed s" "length (resultChan s) < length (inputIPs s)"
      "s' = s\<lparr>resultChan := resultChan s @ [(wip (workers s ! k), ok)],
              workers := (workers s)[k := (workers s ! k)\<lparr>wpc := WRelease\<rparr>]\<rparr>"
    with k show thesis by (rule send)
  next
    assume "wpc (workers s ! k) = WRelease" "0 < semaphore s"
      "s' = s\<lparr>semaphore := semaphore s - 1, workers := (workers s)[k := (workers s ! k)\<lparr>wpc := WDone\<rparr>]\<rparr>"
    with k show thesis by (rule release)
  next
    assume "wpc (workers s ! k) = WRelease" "semaphore s = 0" "semaphoreClosed s"
      "s' = s\<lparr>workers := (workers s)[k := (workers s ! k)\<lparr>wpc := WDone\<rparr>]\<rparr>"
    with k show thesis by (rule releaseClosed)
  next
    assume "wpc (workers s ! k) = WDone" "1 \<le> wg s"
      "s' = s\<lparr>wg := wg s - 1, workers := (workers s)[k := (workers s ! k)\<lparr>wpc := WExit\<rparr>]\<rparr>"
    with k show thesis by (rule fin)
  next
    assume "wpc (workers s ! k) = WDone" "wg s < 1" "s' = s\<lparr>panicked := True\<rparr>"
    with k show thesis by (rule donePanic)
  qed
qed

lemma closerStep_disj:
  assumes "closerStep s = Some s'"
  shows "(closer s = CWait \<and> wg s = 0 \<and> s' = s\<lparr>closer := CClose\<rparr>)
    \<or> (closer s = CClose \<and> resultChanClosed s \<and> s' = s\<lparr>panicked := True\<rparr>)
    \<or> (closer s = CClose \<and> \<not> resultChanClosed s \<and> s' = s\<lparr>resultChanClosed := True, closer := CExit\<rparr>)"
  by (cases "closer s") (use assms in \<open>simp_all add: closerStep_def split: if_splits\<close>)

lemma closerStep_cases:
  assumes "closerStep s = Some s'"
  obtains
    (wait) "closer s = CWait" "wg s = 0" "s' = s\<lparr>closer := CClose\<rparr>"
  | (closePanic) "closer s = CClose" "resultChanClosed s" "s' = s\<lparr>panicked := True\<rparr>"
  | (close) "closer s = CClose" "\<not> resultChanClosed s" "s' = s\<lparr>resultChanClosed := True, closer := CExit\<rparr>"
  using closerStep_disj [OF assms] by blast

lemma step_cases:
  assumes "step pingRunner a s = Some s'"
  obtains
    (main) "\<not> panicked s" "a = Main" "mainStep s = Some s'"
  | (worker) k where "\<not> panicked s" "a = Worker k" "workerStep pingRunner k s = Some s'"
  | (closer) "\<not> panicked s" "a = Closer" "closerStep s = Some s'"
  using assms by (cases a) (auto simp add: step_def split: if_splits)

lemma run_induct:
  assumes "run pingRunner sched s = Some s'" and "P s"
    and "\<And>a t t'. P t \<Longrightarrow> step pingRunner a t = Some t' \<Longrightarrow> P t'"
  shows "P s'"
  using assms(1,2)
proof (induction sched arbitrary: s)
  case Nil
  then show ?case by simp
next
  case (Cons a sched)
  from Cons.prems(1) obtain t where t: "step pingRunner a s = Some t"
    and r: "run pingRunner sched t = Some s'"
    by (auto split: option.splits)
  from Cons.prems(2) t have "P t" by (rule assms(3))
  with r show ?case by (rule Cons.IH)
qed

subsection \<open>The semaphore\<close>

lemma holdersW_update:
  "k < length ws \<Longrightarrow>
     holdersW (ws[k := w']) + (if holdsSlot (ws ! k) then 1 else 0)
       = holdersW ws + (if holdsSlot w' then 1 else 0)"
  unfolding holdersW_def by (rule filter_length_update)

lemma holdersW_append: "holdersW (ws @ [w]) = holdersW ws + (if holdsSlot w then 1 else 0)"
  by (simp add: holdersW_def)

lemma slotInv_start:
  "PingIPsWithConfig_start addrs concurrency = Inr s0 \<Longrightarrow> slotInv s0"
  by (auto simp add: PingIPsWithConfig_start_def slotInv_def holdersW_def split: if_splits)

lemma slotInv_mainStep:
  assumes inv: "slotInv s" and st: "mainStep s = Some s'"
  shows "slotInv s'"
  using st
proof (cases rule: mainStep_cases)
  case spawn
  with inv show ?thesis
    by (simp add: slotInv_def holdersW_append holdsSlot_def)
qed (use inv in \<open>simp_all add: slotInv_def\<close>)

lemma slotInv_closerStep:
  assumes inv: "slotInv s" and st: "closerStep s = Some s'"
  shows "slotInv s'"
  using st by (cases rule: closerStep_cases) (use inv in \<open>simp_all add: slotInv_def\<close>)

lemma slotInv_workerStep:
  assumes inv: "slotInv s" and st: "workerStep pingRunner k s = Some s'"
  shows "slotInv s'"
  using st
proof (cases rule: workerStep_cases)
  case run
  with inv holdersW_update [OF run(1), of "(workers s ! k)
          \<lparr>wpc := WSend (pingRunner (wid (workers s ! k)) (wip (workers s ! k)))\<rparr>"]
  show ?thesis by (simp add: slotInv_def holdsSlot_def)
next
  case (sendPanic ok)
  with inv show ?thesis by (simp add: slotInv_def)
next
  case (send ok)
  with inv holdersW_update [OF send(1), of "(workers s ! k)\<lparr>wpc := WRelease\<rparr>"]
  show ?thesis by (simp add: slotInv_def holdsSlot_def)
next
  case release
  with inv holdersW_update [OF release(1), of "(workers s ! k)\<lparr>wpc := WDone\<rparr>"]
  show ?thesis by (auto simp add: slotInv_def holdsSlot_def)
next
  case releaseClosed
  with inv holdersW_update [OF releaseClosed(1), of "(workers s ! k)\<lparr>wpc := WDone\<rparr>"]
  show ?thesis by (auto simp add: slotInv_def holdsSlot_def)
next
  case fin
  with inv holdersW_update [OF fin(1), of "(workers s ! k)\<lparr>wpc := WExit\<rparr>"]
  show ?thesis by (simp add: slotInv_def holdsSlot_def)
next
  case donePanic
  with inv show ?thesis by (simp add: slotInv_def)
qed

lemma slotInv_step: "slotInv s \<Longrightarrow> step pingRunner a s = Some s' \<Longrightarrow> slotInv s'"
  by (erule step_cases) (auto intro: slotInv_mainStep slotInv_workerStep slotInv_closerStep)

lemma frame_step:
  assumes "step pingRunner a s = Some s'"
  shows "slots s' = slots s \<and> inputIPs s' = inputIPs s"
  using assms
proof (cases rule: step_cases)
  case main
  from main(3) show ?thesis by (cases rule: mainStep_cases) simp_all
next
  case (worker k)
  from worker(3) show ?thesis by (cases rule: workerStep_cases) simp_all
next
  case closer
  from closer(3) show ?thesis by (cases rule: closerStep_cases) simp_all
qed

lemma frame_start:
  "PingIPsWithConfig_start addrs concurrency = Inr s0 \<Longrightarrow>
     slots s0 = nat concurrency \<and> inputIPs s0 = addrs \<and> 0 < concurrency"
  by (auto simp add: PingIPsWithConfig_start_def split: if_splits)

lemma inFlight_le_holders: "inFlightW ws \<le> holdersW ws"
  unfolding inFlightW_def holdersW_def
  by (rule filter_length_mono) (simp add: holdsSlot_def)

lemma reachable_slots:
  assumes "reachable pingRunner addrs concurrency s"
  shows "slotInv s \<and> slots s = nat concurrency \<and> inputIPs s = addrs \<and> 0 < concurrency"
proof -
  from assms obtain s0 sched where
    st: "PingIPsWithConfig_start addrs concurrency = Inr s0" and
    r: "run pingRunner sched s0 = Some s"
    unfolding reachable_def by blast
  have "slotInv s"
    using r slotInv_start [OF st] by (rule run_induct) (rule slotInv_step)
  moreover have "slots s = slots s0 \<and> inputIPs s = inputIPs s0"
    using r by (rule run_induct) (auto dest: frame_step)
  ultimately show ?thesis using frame_start [OF st] by simp
qed

lemma sessInv_start:
  "PingIPsWithConfig_start addrs concurrency = Inr s0 \<Longrightarrow> sessInv pingRunner s0"
  by (auto simp add: PingIPsWithConfig_start_def sessInv_def launching_def notDoneW_def
      collectedOf_def expectedFrom_def split: if_splits)

lemma pendingOf_append:
  "pendingOf pingRunner (ws @ [w]) = pendingOf pingRunner ws + contrib pingRunner w"
  by (induction ws) auto

lemma pendingOf_update:
  "k < length ws \<Longrightarrow>
     pendingOf pingRunner (ws[k := w']) + contrib pingRunner (ws ! k)
       = pendingOf pingRunner ws + contrib pingRunner w'"
proof (induction ws arbitrary: k)
  case Nil
  then show ?case by simp
next
  case (Cons w ws)
  show ?case
  proof (cases k)
    case 0
    then show ?thesis by simp
  next
    case (Suc j)
    with Cons.prems have "j < length ws" by simp
    from Cons.IH [OF this] Suc show ?thesis by (simp add: ac_simps)
  qed
qed

lemma expectedFrom_step:
  "i < length addrs \<Longrightarrow>
     expectedFrom pingRunner addrs i
       = add_mset (addrs ! i, pingRunner i (addrs ! i)) (expectedFrom pingRunner addrs (Suc i))"
  by (simp add: expectedFrom_def upt_conv_Cons)

lemma notDoneW_update:
  "k < length ws \<Longrightarrow>
     notDoneW (ws[k := w']) + (if wpc (ws ! k) \<noteq> WExit then 1 else 0)
       = notDoneW ws + (if wpc w' \<noteq> WExit then 1 else 0)"
  unfolding notDoneW_def by (rule filter_length_update)

lemma notDoneW_append: "notDoneW (ws @ [w]) = notDoneW ws + (if wpc w \<noteq> WExit then 1 else 0)"
  by (simp add: notDoneW_def)

lemma notDoneW_pos: "k < length ws \<Longrightarrow> wpc (ws ! k) \<noteq> WExit \<Longrightarrow> 0 < notDoneW ws"
  unfolding notDoneW_def by (auto simp add: length_greater_0_conv filter_empty_conv)

lemma collectedOf_succ:
  "collectedOf (succ @ [ip]) failed = add_mset (ip, True) (collectedOf succ failed)"
  by (simp add: collectedOf_def)

lemma collectedOf_failed:
  "collectedOf succ (failed @ [ip]) = add_mset (ip, False) (collectedOf succ failed)"
  by (simp add: collectedOf_def)

lemma sessInv_mainStep:
  assumes inv: "sessInv pingRunner s" and st: "mainStep s = Some s'"
  shows "sessInv pingRunner s'"
  using st
proof (cases rule: mainStep_cases)
  case add
  with inv show ?thesis
    by (clarsimp simp add: sessInv_def launching_def)
next
  case acquire
  with inv show ?thesis
    by (clarsimp simp add: sessInv_def launching_def)
next
  case spawn
  with inv have i: "idx s < length (inputIPs s)"
    by (clarsimp simp add: sessInv_def launching_def)
  from spawn inv i expectedFrom_step [OF i, of pingRunner] show ?thesis
    by (clarsimp simp add: sessInv_def launching_def notDoneW_append pendingOf_append contrib_def)
next
  case startCloser
  with inv show ?thesis
    by (clarsimp simp add: sessInv_def launching_def)
next
  case (collectOk ip rest)
  with inv show ?thesis
    by (clarsimp simp add: sessInv_def launching_def collectedOf_succ)
next
  case (collectFail ip rest)
  with inv show ?thesis
    by (clarsimp simp add: sessInv_def launching_def collectedOf_failed)
next
  case ret
  with inv show ?thesis
    by (clarsimp simp add: sessInv_def launching_def)
qed

lemma sessInv_closerStep:
  assumes inv: "sessInv pingRunner s" and st: "closerStep s = Some s'"
  shows "sessInv pingRunner s'"
  using st
proof (cases rule: closerStep_cases)
  case wait
  with inv show ?thesis
    by (clarsimp simp add: sessInv_def launching_def split: if_splits)
next
  case closePanic
  with inv show ?thesis
    by (clarsimp simp add: sessInv_def)
next
  case close
  with inv show ?thesis
    by (clarsimp simp add: sessInv_def launching_def)
qed


lemma sessInv_workerStep:
  assumes inv: "sessInv pingRunner s" and st: "workerStep pingRunner k s = Some s'"
  shows "sessInv pingRunner s'"
  using st
proof (cases rule: workerStep_cases)
  case run
  let ?w' = "(workers s ! k)\<lparr>wpc := WSend (pingRunner (wid (workers s ! k)) (wip (workers s ! k)))\<rparr>"
  have nd: "notDoneW ((workers s)[k := ?w']) = notDoneW (workers s)"
    using notDoneW_update [OF run(1), of ?w'] run(2) by simp
  have pd: "pendingOf pingRunner ((workers s)[k := ?w']) = pendingOf pingRunner (workers s)"
    using pendingOf_update [OF run(1), of pingRunner ?w'] run(2) by (simp add: contrib_def)
  from inv show ?thesis
    by (clarsimp simp add: sessInv_def run(3) nd pd)
next
  case (sendPanic ok)
  have "0 < notDoneW (workers s)"
    using sendPanic(1,2) by (intro notDoneW_pos [of k]) simp_all
  with inv sendPanic(3) show ?thesis
    by (clarsimp simp add: sessInv_def)
next
  case (send ok)
  let ?w' = "(workers s ! k)\<lparr>wpc := WRelease\<rparr>"
  have pos: "0 < notDoneW (workers s)"
    using send(1,2) by (intro notDoneW_pos [of k]) simp_all
  have nd: "notDoneW ((workers s)[k := ?w']) = notDoneW (workers s)"
    using notDoneW_update [OF send(1), of ?w'] send(2) by simp
  have pd: "pendingOf pingRunner (workers s)
      = add_mset (wip (workers s ! k), ok) (pendingOf pingRunner ((workers s)[k := ?w']))"
    using pendingOf_update [OF send(1), of pingRunner ?w'] send(2) by (simp add: contrib_def)
  from inv pos show ?thesis
    by (clarsimp simp add: sessInv_def send(5) nd pd)
next
  case release
  let ?w' = "(workers s ! k)\<lparr>wpc := WDone\<rparr>"
  have nd: "notDoneW ((workers s)[k := ?w']) = notDoneW (workers s)"
    using notDoneW_update [OF release(1), of ?w'] release(2) by simp
  have pd: "pendingOf pingRunner ((workers s)[k := ?w']) = pendingOf pingRunner (workers s)"
    using pendingOf_update [OF release(1), of pingRunner ?w'] release(2)
    by (simp add: contrib_def)
  from inv show ?thesis
    by (clarsimp simp add: sessInv_def release(4) nd pd)
next
  case releaseClosed
  let ?w' = "(workers s ! k)\<lparr>wpc := WDone\<rparr>"
  have nd: "notDoneW ((workers s)[k := ?w']) = notDoneW (workers s)"
    using notDoneW_update [OF releaseClosed(1), of ?w'] releaseClosed(2) by simp
  have pd: "pendingOf pingRunner ((workers s)[k := ?w']) = pendingOf pingRunner (workers s)"
    using pendingOf_update [OF releaseClosed(1), of pingRunner ?w'] releaseClosed(2)
    by (simp add: contrib_def)
  from inv show ?thesis
    by (clarsimp simp add: sessInv_def releaseClosed(5) nd pd)
next
  case fin
  let ?w' = "(workers s ! k)\<lparr>wpc := WExit\<rparr>"
  have nd: "notDoneW (workers s) = Suc (notDoneW ((workers s)[k := ?w']))"
    using notDoneW_update [OF fin(1), of ?w'] fin(2) by simp
  have pd: "pendingOf pingRunner ((workers s)[k := ?w']) = pendingOf pingRunner (workers s)"
    using pendingOf_update [OF fin(1), of pingRunner ?w'] fin(2)
    by (simp add: contrib_def)
  from inv show ?thesis
    by (clarsimp simp add: sessInv_def fin(4) nd pd)
next
  case donePanic
  have "0 < notDoneW (workers s)"
    using donePanic(1,2) by (intro notDoneW_pos [of k]) simp_all
  with inv donePanic(3) show ?thesis
    by (clarsimp simp add: sessInv_def split: if_splits)
qed

lemma sessInv_step:
  "sessInv pingRunner s \<Longrightarrow> step pingRunner a s = Some s' \<Longrightarrow> sessInv pingRunner s'"
  by (erule step_cases) (auto intro: sessInv_mainStep sessInv_workerStep sessInv_closerStep)

lemma reachable_sessInv:
  assumes "reachable pingRunner addrs concurrency s"
  shows "sessInv pingRunner s"
proof -
  from assms obtain s0 sched where
    st: "PingIPsWithConfig_start addrs concurrency = Inr s0" and
    r: "run pingRunner sched s0 = Some s"
    unfolding reachable_def by blast
  show ?thesis
    using r sessInv_start [OF st] by (rule run_induct) (rule sessInv_step)
qed

subsection \<open>The call returns\<close>

lemma filter_pos_nth:
  "0 < length (filter P ws) \<Longrightarrow> \<exists>k < length ws. P (ws ! k)"
proof -
  assume "0 < length (filter P ws)"
  then have "filter P ws \<noteq> []" by simp
  then obtain w where "w \<in> set ws" "P w" by (auto simp add: filter_empty_conv)
  then show ?thesis by (auto simp add: in_set_conv_nth)
qed

lemma notDoneW_nth: "0 < notDoneW ws \<Longrightarrow> \<exists>k < length ws. wpc (ws ! k) \<noteq> WExit"
  unfolding notDoneW_def by (rule filter_pos_nth)

lemma holdersW_nth: "0 < holdersW ws \<Longrightarrow> \<exists>k < length ws. holdsSlot (ws ! k)"
  unfolding holdersW_def by (rule filter_pos_nth)

lemma holdersW_pos: "k < length ws \<Longrightarrow> holdsSlot (ws ! k) \<Longrightarrow> 0 < holdersW ws"
  unfolding holdersW_def by (auto simp add: length_greater_0_conv filter_empty_conv)

lemma size_contrib_le:
  "k < length ws \<Longrightarrow> size (contrib pingRunner (ws ! k)) \<le> size (pendingOf pingRunner ws)"
proof (induction ws arbitrary: k)
  case Nil
  then show ?case by simp
next
  case (Cons w ws)
  show ?case
  proof (cases k)
    case 0
    then show ?thesis by simp
  next
    case (Suc j)
    with Cons.prems have "j < length ws" by simp
    from Cons.IH [OF this] Suc show ?thesis by simp
  qed
qed

lemma size_expectedFrom: "size (expectedFrom pingRunner addrs i) = length addrs - i"
  by (simp add: expectedFrom_def)

lemma size_collectedOf: "size (collectedOf succ failed) = length succ + length failed"
  by (simp add: collectedOf_def)

text \<open>The sizes of the places where verdicts are add up to the number of addresses.\<close>

lemma sessInv_sizes:
  assumes "sessInv pingRunner s"
  shows "length (successIPs s) + length (failedIPs s) + length (resultChan s)
     + size (pendingOf pingRunner (workers s)) + (length (inputIPs s) - idx s) = length (inputIPs s)"
proof -
  from assms have "collectedOf (successIPs s) (failedIPs s) + mset (resultChan s)
            + pendingOf pingRunner (workers s) + expectedFrom pingRunner (inputIPs s) (idx s)
          = expectedFrom pingRunner (inputIPs s) 0"
    by (simp add: sessInv_def)
  then have "size (collectedOf (successIPs s) (failedIPs s) + mset (resultChan s)
            + pendingOf pingRunner (workers s) + expectedFrom pingRunner (inputIPs s) (idx s))
          = size (expectedFrom pingRunner (inputIPs s) 0)"
    by simp
  then show ?thesis
    by (simp add: size_expectedFrom size_collectedOf)
qed

text \<open>A worker that has not finished can take its next step.\<close>

lemma worker_enabled:
  assumes inv: "sessInv pingRunner s" and sl: "slotInv s"
    and k: "k < length (workers s)" and pc: "wpc (workers s ! k) \<noteq> WExit"
  shows "\<exists>s'. workerStep pingRunner k s = Some s'"
proof (cases "wpc (workers s ! k)")
  case WRun
  with k show ?thesis by (simp add: workerStep_def Let_def)
next
  case (WSend ok)
  have "size (contrib pingRunner (workers s ! k)) \<le> size (pendingOf pingRunner (workers s))"
    using k by (rule size_contrib_le)
  then have "1 \<le> size (pendingOf pingRunner (workers s))"
    by (simp add: contrib_def WSend)
  with sessInv_sizes [OF inv] have "length (resultChan s) < length (inputIPs s)" by simp
  with k WSend show ?thesis by (simp add: workerStep_def Let_def)
next
  case WRelease
  then have "holdsSlot (workers s ! k)" by (simp add: holdsSlot_def)
  with k have "0 < holdersW (workers s)" by (rule holdersW_pos)
  with sl have "0 < semaphore s" by (simp add: slotInv_def)
  with k WRelease show ?thesis by (simp add: workerStep_def Let_def)
next
  case WDone
  with k show ?thesis by (simp add: workerStep_def Let_def)
next
  case WExit
  with pc show ?thesis by simp
qed

text \<open>Before the return some goroutine can always take a step: no deadlock.\<close>

lemma progress:
  assumes inv: "sessInv pingRunner s" and sl: "slotInv s" and pos: "0 < slots s"
    and nr: "mainPc s \<noteq> MReturned"
  shows "\<exists>a s'. step pingRunner a s = Some s'"
proof -
  from inv have np: "\<not> panicked s" by (simp add: sessInv_def)
  have w: "\<exists>a s'. step pingRunner a s = Some s'" if "0 < notDoneW (workers s)"
  proof -
    from notDoneW_nth [OF that]
    obtain k where k: "k < length (workers s)" "wpc (workers s ! k) \<noteq> WExit"
      by blast
    from worker_enabled [OF inv sl k] obtain s' where "workerStep pingRunner k s = Some s'" ..
    with np have "step pingRunner (Worker k) s = Some s'" by (simp add: step_def)
    then show ?thesis by blast
  qed
  have m: "\<exists>a s'. step pingRunner a s = Some s'" if "mainStep s = Some t" for t
    using that np by (intro exI [of _ Main] exI [of _ t]) (simp add: step_def)
  show ?thesis
  proof (cases "mainPc s")
    case MAdd
    then show ?thesis by (intro m) (simp add: mainStep_def)
  next
    case MAcquire
    show ?thesis
    proof (cases "semaphore s < slots s")
      case True
      with MAcquire show ?thesis by (intro m) (simp add: mainStep_def)
    next
      case False
      with sl pos MAcquire have "0 < holdersW (workers s)" by (simp add: slotInv_def)
      from holdersW_nth [OF this]
      obtain k where k: "k < length (workers s)" "holdsSlot (workers s ! k)"
        by blast
      then have "wpc (workers s ! k) \<noteq> WExit" by (auto simp add: holdsSlot_def)
      with k have "0 < notDoneW (workers s)" by (intro notDoneW_pos [of k])
      then show ?thesis by (rule w)
    qed
  next
    case MSpawn
    then show ?thesis by (intro m) (simp add: mainStep_def)
  next
    case MStartCloser
    then show ?thesis by (intro m) (simp add: mainStep_def)
  next
    case MCollect
    show ?thesis
    proof (cases "resultChan s")
      case (Cons r rest)
      obtain ip ok where "r = (ip, ok)" by (cases r)
      with Cons MCollect show ?thesis by (intro m) (simp add: mainStep_def)
    next
      case Nil
      show ?thesis
      proof (cases "resultChanClosed s")
        case True
        with Nil MCollect show ?thesis by (intro m) (simp add: mainStep_def)
      next
        case False
        with inv MCollect have c: "closer s = CWait \<or> closer s = CClose"
          by (cases "closer s") (simp_all add: sessInv_def)
        show ?thesis
        proof (cases "0 < notDoneW (workers s)")
          case True
          then show ?thesis by (rule w)
        next
          case nd: False
          with inv MCollect have "wg s = 0" by (simp add: sessInv_def)
          with c False have "\<exists>t. closerStep s = Some t"
            by (auto simp add: closerStep_def)
          then obtain t where "closerStep s = Some t" ..
          with np have "step pingRunner Closer s = Some t" by (simp add: step_def)
          then show ?thesis by blast
        qed
      qed
    qed
  next
    case MReturned
    with nr show ?thesis by simp
  qed
qed

lemma stepsOfWorkers_append:
  "stepsOfWorkers (ws @ [w]) = stepsOfWorkers ws + stepsOfWorker (wpc w)"
  by (simp add: stepsOfWorkers_def)

lemma stepsOfWorkers_update:
  "k < length ws \<Longrightarrow>
     stepsOfWorkers (ws[k := w']) + stepsOfWorker (wpc (ws ! k))
       = stepsOfWorkers ws + stepsOfWorker (wpc w')"
  unfolding stepsOfWorkers_def
proof (induction ws arbitrary: k)
  case Nil
  then show ?case by simp
next
  case (Cons w ws)
  show ?case
  proof (cases k)
    case 0
    then show ?thesis by simp
  next
    case (Suc j)
    with Cons.prems have "j < length ws" by simp
    from Cons.IH [OF this] Suc show ?thesis by simp
  qed
qed

text \<open>Every step uses up one of the steps left.\<close>

lemma stepsLeft_mainStep:
  assumes inv: "sessInv pingRunner s" and st: "mainStep s = Some s'"
  shows "Suc (stepsLeft s') = stepsLeft s"
  using st
proof (cases rule: mainStep_cases)
  case add
  then show ?thesis by (simp add: stepsLeft_def launching_def)
next
  case acquire
  then show ?thesis by (simp add: stepsLeft_def launching_def)
next
  case spawn
  with inv have i: "idx s < length (inputIPs s)"
    by (simp add: sessInv_def launching_def)
  from inv spawn have c: "closer s = CNotStarted"
    by (cases "closer s") (simp_all add: sessInv_def)
  show ?thesis
  proof (cases "idx s + 1 < length (inputIPs s)")
    case True
    then have "length (inputIPs s) - idx s - 1 = Suc (length (inputIPs s) - (idx s + 1) - 1)" by simp
    with True spawn c show ?thesis
      by (simp add: stepsLeft_def launching_def stepsOfWorkers_append)
  next
    case False
    with i have "length (inputIPs s) - idx s - 1 = 0" by simp
    with False spawn c show ?thesis
      by (simp add: stepsLeft_def launching_def stepsOfWorkers_append)
  qed
next
  case startCloser
  from inv startCloser have c: "closer s = CNotStarted"
    by (cases "closer s") (simp_all add: sessInv_def)
  with startCloser show ?thesis by (simp add: stepsLeft_def launching_def)
next
  case (collectOk ip rest)
  with sessInv_sizes [OF inv]
  have "length (successIPs s) + length (failedIPs s) < length (inputIPs s)" by simp
  with collectOk show ?thesis by (simp add: stepsLeft_def launching_def)
next
  case (collectFail ip rest)
  with sessInv_sizes [OF inv]
  have "length (successIPs s) + length (failedIPs s) < length (inputIPs s)" by simp
  with collectFail show ?thesis by (simp add: stepsLeft_def launching_def)
next
  case ret
  then show ?thesis by (simp add: stepsLeft_def launching_def)
qed

lemma stepsLeft_closerStep:
  assumes inv: "sessInv pingRunner s" and st: "closerStep s = Some s'"
  shows "Suc (stepsLeft s') = stepsLeft s"
proof -
  have inv': "sessInv pingRunner s'" using inv st by (rule sessInv_closerStep)
  from st show ?thesis
  proof (cases rule: closerStep_cases)
    case wait
    then show ?thesis by (simp add: stepsLeft_def)
  next
    case closePanic
    with inv' show ?thesis by (simp add: sessInv_def)
  next
    case close
    then show ?thesis by (simp add: stepsLeft_def)
  qed
qed

lemma stepsLeft_workerStep:
  assumes inv: "sessInv pingRunner s" and st: "workerStep pingRunner k s = Some s'"
  shows "Suc (stepsLeft s') = stepsLeft s"
proof -
  have inv': "sessInv pingRunner s'" using inv st by (rule sessInv_workerStep)
  from st show ?thesis
  proof (cases rule: workerStep_cases)
    case run
    with stepsOfWorkers_update [OF run(1), of "(workers s ! k)
          \<lparr>wpc := WSend (pingRunner (wid (workers s ! k)) (wip (workers s ! k)))\<rparr>"]
    show ?thesis by (simp add: stepsLeft_def)
  next
    case (sendPanic ok)
    with inv' show ?thesis by (simp add: sessInv_def)
  next
    case (send ok)
    with stepsOfWorkers_update [OF send(1), of "(workers s ! k)\<lparr>wpc := WRelease\<rparr>"]
    show ?thesis by (simp add: stepsLeft_def)
  next
    case release
    with stepsOfWorkers_update [OF release(1), of "(workers s ! k)\<lparr>wpc := WDone\<rparr>"]
    show ?thesis by (simp add: stepsLeft_def)
  next
    case releaseClosed
    with stepsOfWorkers_update [OF releaseClosed(1), of "(workers s ! k)\<lparr>wpc := WDone\<rparr>"]
    show ?thesis by (simp add: stepsLeft_def)
  next
    case fin
    with stepsOfWorkers_update [OF fin(1), of "(workers s ! k)\<lparr>wpc := WExit\<rparr>"]
    show ?thesis by (simp add: stepsLeft_def)
  next
    case donePanic
    with inv' show ?thesis by (simp add: sessInv_def)
  qed
qed

lemma stepsLeft_step:
  "sessInv pingRunner s \<Longrightarrow> step pingRunner a s = Some s' \<Longrightarrow> Suc (stepsLeft s') = stepsLeft s"
  by (erule step_cases)
     (auto intro: stepsLeft_mainStep stepsLeft_workerStep stepsLeft_closerStep)

text \<open>So a schedule of a call is never longer than the steps left at its beginning.\<close>

lemma run_length:
  "sessInv pingRunner s \<Longrightarrow> run pingRunner sched s = Some s' \<Longrightarrow>
     length sched + stepsLeft s' = stepsLeft s"
proof (induction sched arbitrary: s)
  case Nil
  then show ?case by simp
next
  case (Cons a sched)
  from Cons.prems(2) obtain t where t: "step pingRunner a s = Some t"
    and r: "run pingRunner sched t = Some s'"
    by (auto split: option.splits)
  have "sessInv pingRunner t" using Cons.prems(1) t by (rule sessInv_step)
  from Cons.IH [OF this r] stepsLeft_step [OF Cons.prems(1) t] show ?case by simp
qed

text \<open>And every state of a call can be run on to the return.\<close>

lemma can_return:
  "sessInv pingRunner s \<Longrightarrow> slotInv s \<Longrightarrow> 0 < slots s \<Longrightarrow>
     \<exists>sched s'. run pingRunner sched s = Some s' \<and> mainPc s' = MReturned"
proof (induction "stepsLeft s" arbitrary: s rule: less_induct)
  case less
  show ?case
  proof (cases "mainPc s = MReturned")
    case True
    then have "run pingRunner [] s = Some s \<and> mainPc s = MReturned" by simp
    then show ?thesis by blast
  next
    case False
    from progress [OF less.prems False]
    obtain a t where t: "step pingRunner a s = Some t" by blast
    have 1: "sessInv pingRunner t" using less.prems(1) t by (rule sessInv_step)
    have 2: "slotInv t" using less.prems(2) t by (rule slotInv_step)
    have 3: "0 < slots t" using frame_step [OF t] less.prems(3) by simp
    have "stepsLeft t < stepsLeft s" using stepsLeft_step [OF less.prems(1) t] by simp
    from less.hyps [OF this 1 2 3]
    obtain sched s' where "run pingRunner sched t = Some s'" "mainPc s' = MReturned" by blast
    with t have "run pingRunner (a # sched) s = Some s' \<and> mainPc s' = MReturned" by simp
    then show ?thesis by blast
  qed
qed

subsection \<open>The result of a call\<close>

lemma image_fst_collectedOf:
  "image_mset fst (collectedOf succ failed) = mset succ + mset failed"
  by (simp add: collectedOf_def image_mset.compositionality comp_def)

lemma image_fst_expectedFrom:
  "image_mset fst (expectedFrom pingRunner addrs 0) = mset addrs"
proof -
  have "image_mset fst (expectedFrom pingRunner addrs 0)
      = mset (map (\<lambda>k. addrs ! k) [0 ..< length addrs])"
    by (simp add: expectedFrom_def image_mset.compositionality comp_def)
  then show ?thesis by (simp add: map_nth)
qed

lemma filter_collectedOf_True:
  "filter_mset snd (collectedOf succ failed) = image_mset (\<lambda>ip. (ip, True)) (mset succ)"
  by (simp add: collectedOf_def filter_mset_image_mset)

lemma pendingOf_finished:
  "\<forall>w \<in> set ws. wpc w = WExit \<Longrightarrow> pendingOf pingRunner ws = {#}"
  by (induction ws) (auto simp add: contrib_def)

lemma returned_result:
  assumes inv: "sessInv pingRunner s" and ret: "mainPc s = MReturned"
  shows "collectedOf (successIPs s) (failedIPs s) = expectedFrom pingRunner (inputIPs s) 0"
proof -
  from inv ret have i: "idx s = length (inputIPs s)" and c: "resultChan s = []"
    and n: "notDoneW (workers s) = 0"
    by (simp_all add: sessInv_def launching_def)
  have "\<forall>w \<in> set (workers s). wpc w = WExit"
    using n unfolding notDoneW_def by (auto simp add: filter_empty_conv)
  then have p: "pendingOf pingRunner (workers s) = {#}"
    by (rule pendingOf_finished)
  from inv show ?thesis
    by (simp add: sessInv_def i c p expectedFrom_def)
qed

subsection \<open>The claims about the orchestrator\<close>

text \<open>
  Claim C8, as stated: for every address list the two returned collections hold every
  input address in exactly one of them and without duplicates. This fails for a list
  that repeats an address: each occurrence is a campaign of its own and is reported on
  its own, so the address is returned twice, in one collection when both campaigns
  agree and once in each when they do not.
\<close>

theorem C8_partition_counterexample:
  "PingIPsWithConfig (verdicts [True, False]) serialSchedule2 [''10.0.0.1'', ''10.0.0.1''] 1
     = Inr (Some ([''10.0.0.1''], [''10.0.0.1'']))
   \<and> PingIPsWithConfig (verdicts [True, True]) serialSchedule2 [''10.0.0.1'', ''10.0.0.1''] 1
     = Inr (Some ([''10.0.0.1'', ''10.0.0.1''], []))"
  by code_simp


text \<open>
  Claim C8, amended: in every state a call with a positive concurrency can reach, some
  goroutine can take a step unless the call has returned, the call can be run on to
  its return, and no schedule is longer than \<open>8 n + 4\<close> steps for \<open>n\<close> addresses; and
  when the call has returned, the two lists hold exactly one entry for each campaign,
  its address in \<open>successIPs\<close> when its \<open>pingRunner\<close> returned true and in \<open>failedIPs\<close>
  otherwise: as multisets the two lists together are the input list, and when no
  address is repeated in the input none is repeated in or across the two lists.
\<close>

theorem C8_partition:
  assumes "reachable pingRunner addrs concurrency s"
  shows "(mainPc s = MReturned \<longrightarrow>
            collectedOf (successIPs s) (failedIPs s) = expectedFrom pingRunner addrs 0
          \<and> mset (successIPs s) + mset (failedIPs s) = mset addrs
          \<and> (distinct addrs \<longrightarrow> distinct (successIPs s @ failedIPs s)))
     \<and> (mainPc s \<noteq> MReturned \<longrightarrow> (\<exists>a s'. step pingRunner a s = Some s'))
     \<and> (\<exists>sched s'. run pingRunner sched s = Some s' \<and> mainPc s' = MReturned)
     \<and> (\<forall>sched s'. run pingRunner sched s = Some s' \<longrightarrow> length sched \<le> 8 * length addrs + 4)"
proof -
  have inv: "sessInv pingRunner s" using assms by (rule reachable_sessInv)
  from reachable_slots [OF assms] have sl: "slotInv s" and pos: "0 < slots s"
    and inputIPs: "inputIPs s = addrs"
    by simp_all
  have 1: "collectedOf (successIPs s) (failedIPs s) = expectedFrom pingRunner addrs 0
          \<and> mset (successIPs s) + mset (failedIPs s) = mset addrs
          \<and> (distinct addrs \<longrightarrow> distinct (successIPs s @ failedIPs s))"
    if ret: "mainPc s = MReturned"
  proof -
    have c: "collectedOf (successIPs s) (failedIPs s) = expectedFrom pingRunner addrs 0"
      using returned_result [OF inv ret] inputIPs by simp
    then have "image_mset fst (collectedOf (successIPs s) (failedIPs s))
        = image_mset fst (expectedFrom pingRunner addrs 0)"
      by simp
    then have m: "mset (successIPs s) + mset (failedIPs s) = mset addrs"
      by (simp only: image_fst_collectedOf image_fst_expectedFrom)
    then have "mset (successIPs s @ failedIPs s) = mset addrs" by simp
    then have "distinct (successIPs s @ failedIPs s) = distinct addrs"
      by (rule mset_eq_imp_distinct_iff)
    with c m show ?thesis by simp
  qed
  have 2: "\<exists>a s'. step pingRunner a s = Some s'" if "mainPc s \<noteq> MReturned"
    using inv sl pos that by (rule progress)
  have 3: "\<exists>sched s'. run pingRunner sched s = Some s' \<and> mainPc s' = MReturned"
    using inv sl pos by (rule can_return)
  have 4: "length sched \<le> 8 * length addrs + 4" if r: "run pingRunner sched s = Some s'"
    for sched s'
  proof -
    from assms obtain s0 sched0 where
      st: "PingIPsWithConfig_start addrs concurrency = Inr s0" and
      r0: "run pingRunner sched0 s0 = Some s"
      unfolding reachable_def by blast
    have "stepsLeft s0 \<le> 8 * length addrs + 4"
      using st
      by (cases addrs)
         (auto simp add: PingIPsWithConfig_start_def stepsLeft_def launching_def
           stepsOfWorkers_def split: if_splits)
    moreover have "length sched0 + stepsLeft s = stepsLeft s0"
      using sessInv_start [OF st] r0 by (rule run_length)
    moreover have "length sched + stepsLeft s' = stepsLeft s"
      using inv r by (rule run_length)
    ultimately show ?thesis by simp
  qed
  from 1 2 3 4 show ?thesis by blast
qed

theorem C8_partition_witness:
  "reachable (verdicts [True, False]) [''10.0.0.1'', ''10.0.0.2''] 1
     \<lparr>inputIPs = [''10.0.0.1'', ''10.0.0.2''], slots = 1, mainPc = MReturned,
      idx = 2, semaphore = 0, semaphoreClosed = True, wg = 0,
      workers = [\<lparr>wid = 0, wip = ''10.0.0.1'', wpc = WExit\<rparr>,
                 \<lparr>wid = 1, wip = ''10.0.0.2'', wpc = WExit\<rparr>],
      resultChan = [], resultChanClosed = True, closer = CExit, successIPs = [''10.0.0.1''],
      failedIPs = [''10.0.0.2''], panicked = False\<rparr>
   \<and> mset [''10.0.0.1''] + mset [''10.0.0.2''] = mset [''10.0.0.1'', ''10.0.0.2'']
   \<and> distinct ([''10.0.0.1''] @ [''10.0.0.2''])"
proof -
  let ?init = "\<lparr>inputIPs = [''10.0.0.1'', ''10.0.0.2''], slots = 1, mainPc = MAdd, idx = 0,
        semaphore = 0, semaphoreClosed = False, wg = 0, workers = [], resultChan = [],
        resultChanClosed = False, closer = CNotStarted, successIPs = [],
        failedIPs = [], panicked = False\<rparr>"
  let ?fin = "\<lparr>inputIPs = [''10.0.0.1'', ''10.0.0.2''], slots = 1, mainPc = MReturned,
      idx = 2, semaphore = 0, semaphoreClosed = True, wg = 0,
      workers = [\<lparr>wid = 0, wip = ''10.0.0.1'', wpc = WExit\<rparr>,
                 \<lparr>wid = 1, wip = ''10.0.0.2'', wpc = WExit\<rparr>],
      resultChan = [], resultChanClosed = True, closer = CExit, successIPs = [''10.0.0.1''],
      failedIPs = [''10.0.0.2''], panicked = False\<rparr>"
  have st: "PingIPsWithConfig_start [''10.0.0.1'', ''10.0.0.2''] 1 = Inr ?init"
    by (simp add: PingIPsWithConfig_start_def)
  have r: "run (verdicts [True, False]) serialSchedule2 ?init = Some ?fin"
    by code_simp
  have re: "reachable (verdicts [True, False]) [''10.0.0.1'', ''10.0.0.2''] 1 ?fin"
    unfolding reachable_def using st r by blast
  have d: "distinct [''10.0.0.1'', ''10.0.0.2'']" by simp
  from C8_partition [OF re] re d show ?thesis by simp
qed


text \<open>
  Claim C9: the call fails with \<open>InvalidConcurrency\<close> exactly when the concurrency is
  not positive, whatever the schedule, and then before any state of the transition
  system exists, so that no worker is ever launched; a reachable state is never a
  panic; and with a positive concurrency the empty list returns two empty lists at
  once, no worker being launched.
\<close>

theorem C9_invalid_concurrency:
  "((PingIPsWithConfig_start addrs concurrency = Inl InvalidConcurrency) = (concurrency \<le> 0))
   \<and> ((PingIPsWithConfig pingRunner sched addrs concurrency = Inl InvalidConcurrency)
        = (concurrency \<le> 0))
   \<and> (concurrency \<le> 0 \<longrightarrow> \<not> reachable pingRunner addrs concurrency s)
   \<and> (0 < concurrency \<longrightarrow>
        PingIPsWithConfig pingRunner [] [] concurrency = Inr (Some ([], [])))
   \<and> (0 < concurrency \<and> reachable pingRunner [] concurrency s \<longrightarrow>
        mainPc s = MReturned \<and> workers s = [] \<and> successIPs s = [] \<and> failedIPs s = []
        \<and> \<not> panicked s)
   \<and> (reachable pingRunner addrs concurrency s \<longrightarrow> \<not> panicked s)"
proof (intro conjI impI)
  show "(PingIPsWithConfig_start addrs concurrency = Inl InvalidConcurrency) = (concurrency \<le> 0)"
    by (simp add: PingIPsWithConfig_start_def)
  show "(PingIPsWithConfig pingRunner sched addrs concurrency = Inl InvalidConcurrency)
        = (concurrency \<le> 0)"
    by (simp add: PingIPsWithConfig_def PingIPsWithConfig_start_def)
  show "\<not> reachable pingRunner addrs concurrency s" if "concurrency \<le> 0"
    using that by (simp add: reachable_def PingIPsWithConfig_start_def)
  show "PingIPsWithConfig pingRunner [] [] concurrency = Inr (Some ([], []))" if "0 < concurrency"
    using that by (simp add: PingIPsWithConfig_def PingIPsWithConfig_start_def)
  show "\<not> panicked s" if "reachable pingRunner addrs concurrency s"
    using reachable_sessInv [OF that] by (simp add: sessInv_def)
next
  assume a: "0 < concurrency \<and> reachable pingRunner [] concurrency s"
  then obtain s0 sched where
    st: "PingIPsWithConfig_start [] concurrency = Inr s0" and
    r: "run pingRunner sched s0 = Some s"
    unfolding reachable_def by blast
  have s0: "mainPc s0 = MReturned \<and> workers s0 = [] \<and> successIPs s0 = []
      \<and> failedIPs s0 = [] \<and> \<not> panicked s0 \<and> closer s0 = CNotStarted"
    using st by (auto simp add: PingIPsWithConfig_start_def split: if_splits)
  have "step pingRunner a s0 = None" for a
    using s0 by (cases a) (simp_all add: step_def mainStep_def workerStep_def closerStep_def)
  with r have "s = s0" by (cases sched) simp_all
  with s0 show "mainPc s = MReturned" "workers s = []" "successIPs s = []" "failedIPs s = []"
    "\<not> panicked s"
    by simp_all
qed

theorem C9_invalid_concurrency_witness:
  "PingIPsWithConfig (verdicts []) [] [''10.0.0.1''] 0 = Inl InvalidConcurrency
   \<and> PingIPsWithConfig (verdicts []) [] [''10.0.0.1''] (- 3) = Inl InvalidConcurrency
   \<and> PingIPsWithConfig (verdicts []) [] [] 20 = Inr (Some ([], []))
   \<and> reachable (verdicts []) [] 20
       \<lparr>inputIPs = [], slots = 20, mainPc = MReturned, idx = 0, semaphore = 0, semaphoreClosed = False, wg = 0,
        workers = [], resultChan = [], resultChanClosed = False, closer = CNotStarted, successIPs = [],
        failedIPs = [], panicked = False\<rparr>"
proof -
  let ?init = "\<lparr>inputIPs = [], slots = 20, mainPc = MReturned, idx = 0, semaphore = 0, semaphoreClosed = False,
        wg = 0, workers = [], resultChan = [], resultChanClosed = False, closer = CNotStarted, successIPs = [],
        failedIPs = [], panicked = False\<rparr>"
  have st: "PingIPsWithConfig_start [] 20 = Inr ?init" by (simp add: PingIPsWithConfig_start_def)
  have r: "run (verdicts []) [] ?init = Some ?init" by simp
  have re: "reachable (verdicts []) [] 20 ?init"
    unfolding reachable_def using st r by blast
  from C9_invalid_concurrency [of "[''10.0.0.1'']" 0 "verdicts []" "[]" ?init]
    C9_invalid_concurrency [of "[''10.0.0.1'']" "- 3" "verdicts []" "[]" ?init]
    C9_invalid_concurrency [of "[]" 20 "verdicts []" "[]" ?init] re
  show ?thesis by simp
qed


text \<open>
  Claim C10: in every state a call with concurrency ceiling \<open>K\<close> can reach, at most \<open>K\<close>
  workers are inside \<open>pingRunner\<close>. Each such worker holds a slot of the semaphore: the
  main goroutine put a token in for it before the \<open>go\<close> statement, and the worker takes
  one out in its deferred function after its campaign; the semaphore never holds more
  than \<open>K\<close> tokens because a send to a full channel blocks.
\<close>

theorem C10_concurrency_bound:
  assumes "reachable pingRunner addrs concurrency s"
  shows "inFlight s \<le> holdersW (workers s) \<and> holdersW (workers s) \<le> semaphore s
     \<and> semaphore s \<le> nat concurrency \<and> inFlight s \<le> nat concurrency \<and> 1 \<le> concurrency"
  using reachable_slots [OF assms] inFlight_le_holders [of "workers s"]
  by (simp add: slotInv_def inFlight_def)

theorem C10_concurrency_bound_witness:
  "reachable (verdicts [True, False, True]) [''10.0.0.1'', ''10.0.0.2'', ''10.0.0.3''] 2
     \<lparr>inputIPs = [''10.0.0.1'', ''10.0.0.2'', ''10.0.0.3''], slots = 2,
      mainPc = MAcquire, idx = 2, semaphore = 2, semaphoreClosed = False, wg = 3,
      workers = [\<lparr>wid = 0, wip = ''10.0.0.1'', wpc = WRun\<rparr>,
                 \<lparr>wid = 1, wip = ''10.0.0.2'', wpc = WRun\<rparr>],
      resultChan = [], resultChanClosed = False, closer = CNotStarted, successIPs = [],
      failedIPs = [], panicked = False\<rparr>
   \<and> inFlight
     \<lparr>inputIPs = [''10.0.0.1'', ''10.0.0.2'', ''10.0.0.3''], slots = 2,
      mainPc = MAcquire, idx = 2, semaphore = 2, semaphoreClosed = False, wg = 3,
      workers = [\<lparr>wid = 0, wip = ''10.0.0.1'', wpc = WRun\<rparr>,
                 \<lparr>wid = 1, wip = ''10.0.0.2'', wpc = WRun\<rparr>],
      resultChan = [], resultChanClosed = False, closer = CNotStarted, successIPs = [],
      failedIPs = [], panicked = False\<rparr> = 2
   \<and> step (verdicts [True, False, True]) Main
     \<lparr>inputIPs = [''10.0.0.1'', ''10.0.0.2'', ''10.0.0.3''], slots = 2,
      mainPc = MAcquire, idx = 2, semaphore = 2, semaphoreClosed = False, wg = 3,
      workers = [\<lparr>wid = 0, wip = ''10.0.0.1'', wpc = WRun\<rparr>,
                 \<lparr>wid = 1, wip = ''10.0.0.2'', wpc = WRun\<rparr>],
      resultChan = [], resultChanClosed = False, closer = CNotStarted, successIPs = [],
      failedIPs = [], panicked = False\<rparr> = None"
proof -
  let ?init = "\<lparr>inputIPs = [''10.0.0.1'', ''10.0.0.2'', ''10.0.0.3''], slots = 2, mainPc = MAdd,
        idx = 0, semaphore = 0, semaphoreClosed = False, wg = 0, workers = [], resultChan = [],
        resultChanClosed = False, closer = CNotStarted, successIPs = [],
        failedIPs = [], panicked = False\<rparr>"
  let ?fin = "\<lparr>inputIPs = [''10.0.0.1'', ''10.0.0.2'', ''10.0.0.3''], slots = 2,
      mainPc = MAcquire, idx = 2, semaphore = 2, semaphoreClosed = False, wg = 3,
      workers = [\<lparr>wid = 0, wip = ''10.0.0.1'', wpc = WRun\<rparr>,
                 \<lparr>wid = 1, wip = ''10.0.0.2'', wpc = WRun\<rparr>],
      resultChan = [], resultChanClosed = False, closer = CNotStarted, successIPs = [],
      failedIPs = [], panicked = False\<rparr>"
  have st: "PingIPsWithConfig_start [''10.0.0.1'', ''10.0.0.2'', ''10.0.0.3''] 2 = Inr ?init"
    by (simp add: PingIPsWithConfig_start_def)
  have r: "run (verdicts [True, False, True]) [Main, Main, Main, Main, Main, Main, Main] ?init
      = Some ?fin"
    by code_simp
  have re: "reachable (verdicts [True, False, True])
      [''10.0.0.1'', ''10.0.0.2'', ''10.0.0.3''] 2 ?fin"
    unfolding reachable_def using st r by blast
  have f: "inFlight ?fin = 2" by code_simp
  have b: "step (verdicts [True, False, True]) Main ?fin = None" by code_simp
  from C10_concurrency_bound [OF re] re f b show ?thesis by simp
qed

end
